theory Spec2Isabelle
  imports Main "HOL-Library.AList"
begin

section \<open>The price service connection of pyth-common-js\<close>

text \<open>
  This theory embeds the websocket half of
  \<^verbatim>\<open>src/pyth-common-js/src/PriceServiceConnection.ts\<close>: the callback registry
  \<^verbatim>\<open>priceFeedCallbacks\<close>, the methods \<^verbatim>\<open>subscribePriceFeedUpdates\<close>,
  \<^verbatim>\<open>unsubscribePriceFeedUpdates\<close>, \<^verbatim>\<open>startWebSocket\<close>, \<^verbatim>\<open>closeWebSocket\<close>
  and the two handlers that \<^verbatim>\<open>startWebSocket\<close> installs on the transport
  (\<^verbatim>\<open>onReconnect\<close>, \<^verbatim>\<open>onMessage\<close>).

  The object is a record that every method takes and returns. What the methods do to the
  outside world (constructing, starting, writing to and closing a transport, calling the
  error hook, calling a subscriber callback) is appended to the field \<open>events\<close>, so that
  "sends exactly one message" is a statement about that list. The HTTP methods and the
  logger touch none of the fields modelled here and are left out. Each method call and
  each handler call runs to its end before the next one starts; the awaits on the
  transport are the only places where the source could interleave two of them. The one
  place where calls nest is the message handler, whose callbacks can call the methods
  while it loops (see \<open>invoke_callbacks\<close>).
\<close>

subsection \<open>Values\<close>

type_synonym HexString = string

text \<open>
  A callback is a function object, compared by reference when it is stored in a
  \<^verbatim>\<open>Set\<close>. It is modelled as its reference; what calling it does is given
  separately (see \<open>behaviour\<close>).
\<close>

type_synonym PriceFeedUpdateCallback = nat

datatype error = Error string | SyntaxError string | TypeError string

text \<open>A method either returns or throws.\<close>

datatype outcome = Returned | Threw error

text \<open>
  \<^verbatim>\<open>PriceFeed\<close> comes from the SDK package; the connection reads only its
  \<^verbatim>\<open>id\<close>. The second field stands for the rest of the feed.
\<close>

datatype PriceFeed = PriceFeed (feed_id: HexString) (feed_content: nat)

text \<open>
  \<^verbatim>\<open>ClientMessage\<close>: the field \<^verbatim>\<open>type\<close> is the constructor. The source writes
  \<^verbatim>\<open>JSON.stringify(message)\<close> to the transport; the model records the message itself.
\<close>

datatype ClientMessage =
    Subscribe (ids: "HexString list") (msg_verbose: bool)
  | Unsubscribe (ids: "HexString list")

text \<open>
  An inbound frame, given by what the two external parsers make of it:
  \<^verbatim>\<open>JSON.parse\<close> throws (\<open>NotJson\<close>), returns \<^verbatim>\<open>null\<close> (\<open>JsonNull\<close>), or returns a
  value whose \<^verbatim>\<open>type\<close> is \<^verbatim>\<open>"response"\<close> (with its \<^verbatim>\<open>status\<close> and optional
  \<^verbatim>\<open>error\<close>), \<^verbatim>\<open>"price_update"\<close> (with what \<^verbatim>\<open>PriceFeed.fromJson\<close> does on its
  \<^verbatim>\<open>price_feed\<close>: throw or return a feed), or anything else (\<open>Unsupported\<close>).
\<close>

datatype frame =
    NotJson error
  | JsonNull
  | Response string "string option"
  | PriceUpdate "error + PriceFeed"
  | Unsupported

datatype event =
    WsStart nat
  | WsSend nat ClientMessage
  | WsClose nat
  | OnWsError error
  | Invoke PriceFeedUpdateCallback PriceFeed

subsection \<open>The built-in collections\<close>

text \<open>
  A JavaScript \<^verbatim>\<open>Map\<close> iterates in insertion order, \<^verbatim>\<open>set\<close> on a present key keeps
  the key's position, and \<^verbatim>\<open>delete\<close> removes the key: an association list with
  \<open>AList.update\<close> and \<open>AList.delete\<close>. A \<^verbatim>\<open>Set\<close> is a list without repetition in
  insertion order.
\<close>

type_synonym registry = "(HexString \<times> PriceFeedUpdateCallback list) list"

abbreviation Map_has :: "('k \<times> 'v) list \<Rightarrow> 'k \<Rightarrow> bool" where
  "Map_has m k \<equiv> map_of m k \<noteq> None"

abbreviation Map_get :: "('k \<times> 'v) list \<Rightarrow> 'k \<Rightarrow> 'v option" where
  "Map_get m k \<equiv> map_of m k"

abbreviation Map_set :: "('k \<times> 'v) list \<Rightarrow> 'k \<Rightarrow> 'v \<Rightarrow> ('k \<times> 'v) list" where
  "Map_set m k v \<equiv> AList.update k v m"

abbreviation Map_delete :: "('k \<times> 'v) list \<Rightarrow> 'k \<Rightarrow> ('k \<times> 'v) list" where
  "Map_delete m k \<equiv> AList.delete k m"

abbreviation Map_keys :: "('k \<times> 'v) list \<Rightarrow> 'k list" where
  "Map_keys m \<equiv> map fst m"

definition Set_add :: "'a list \<Rightarrow> 'a \<Rightarrow> 'a list" where
  "Set_add xs x = (if x \<in> set xs then xs else xs @ [x])"

definition Set_delete :: "'a list \<Rightarrow> 'a \<Rightarrow> 'a list" where
  "Set_delete xs x = removeAll x xs"

subsection \<open>The connection object\<close>

text \<open>
  \<open>wsClient\<close> holds the reference of the current \<^verbatim>\<open>ResilientWebSocket\<close>, if any;
  \<open>wsInstances\<close> counts the transports constructed so far, and the next one constructed
  gets that number as its reference.
\<close>

record PriceServiceConnection =
  priceFeedCallbacks :: registry
  wsClient :: "nat option"
  wsEndpoint :: "string option"
  verbose :: bool
  wsInstances :: nat
  events :: "event list"

definition emit :: "event \<Rightarrow> PriceServiceConnection \<Rightarrow> PriceServiceConnection" where
  "emit e s = s\<lparr>events := events s @ [e]\<rparr>"

text \<open>
  The constructor. \<^verbatim>\<open>makeWebsocketUrl\<close> is not part of the file; its result on the
  endpoint is the first argument. The second is \<^verbatim>\<open>config?.verbose || false\<close>.
\<close>

definition new_connection :: "string option \<Rightarrow> bool \<Rightarrow> PriceServiceConnection" where
  "new_connection url v =
     \<lparr>priceFeedCallbacks = [], wsClient = None, wsEndpoint = url, verbose = v,
      wsInstances = 0, events = []\<rparr>"

text \<open>
  Modelled from the spec: the helper \<^verbatim>\<open>removeLeading0xIfExists\<close> of \<^verbatim>\<open>./utils\<close> is
  imported but not part of the sources. The specification describes the key as
  case-normalized with any leading prefix stripped; the prefix is the \<^verbatim>\<open>0x\<close> of the
  helper's name.
\<close>

text \<open>Lower case of an ASCII letter: bit 5 set; any other character is kept.\<close>

definition toLowerCase :: "char \<Rightarrow> char" where
  "toLowerCase c =
     (if c \<in> set ''ABCDEFGHIJKLMNOPQRSTUVWXYZ''
      then Char (digit0 c) (digit1 c) (digit2 c) (digit3 c) (digit4 c) True (digit6 c) (digit7 c)
      else c)"

definition removeLeading0xIfExists :: "HexString \<Rightarrow> HexString" where
  "removeLeading0xIfExists priceId =
     (let l = map toLowerCase priceId in if take 2 l = ''0x'' then drop 2 l else l)"

text \<open>
  Modelled from the spec: the class \<^verbatim>\<open>ResilientWebSocket\<close> is imported but not part
  of the sources. By the specification its \<^verbatim>\<open>start\<close>, \<^verbatim>\<open>send\<close> and \<^verbatim>\<open>close\<close> report
  failures through the error hook and never throw, so each call is one event on the
  transport's reference and returns.
\<close>

definition ws_send :: "ClientMessage \<Rightarrow> PriceServiceConnection \<Rightarrow> PriceServiceConnection" where
  "ws_send message s = (case wsClient s of None \<Rightarrow> s | Some w \<Rightarrow> emit (WsSend w message) s)"

subsection \<open>startWebSocket and closeWebSocket\<close>

definition startWebSocket :: "PriceServiceConnection \<Rightarrow> outcome \<times> PriceServiceConnection" where
  "startWebSocket s =
     (case wsEndpoint s of
        None \<Rightarrow> (Threw (Error ''Websocket endpoint is undefined.''), s)
      | Some url \<Rightarrow>
          (Returned,
           emit (WsStart (wsInstances s))
             (s\<lparr>wsClient := Some (wsInstances s), wsInstances := Suc (wsInstances s)\<rparr>)))"

definition closeWebSocket :: "PriceServiceConnection \<Rightarrow> PriceServiceConnection" where
  "closeWebSocket s =
     (let s1 = (case wsClient s of None \<Rightarrow> s | Some w \<Rightarrow> emit (WsClose w) s)
      in s1\<lparr>wsClient := None, priceFeedCallbacks := []\<rparr>)"

subsection \<open>subscribePriceFeedUpdates\<close>

text \<open>
  The loop over the normalized ids. \<^verbatim>\<open>this.priceFeedCallbacks.get(id)!\<close> is a lookup
  whose result is used as an object: on \<^verbatim>\<open>undefined\<close> the method call throws a
  \<^verbatim>\<open>TypeError\<close>, with the registry as the loop has left it.
\<close>

fun subscribe_loop ::
  "registry \<Rightarrow> HexString list \<Rightarrow> PriceFeedUpdateCallback \<Rightarrow> HexString list
     \<Rightarrow> outcome \<times> registry \<times> HexString list" where
  "subscribe_loop m [] cb newPriceIds = (Returned, m, newPriceIds)"
| "subscribe_loop m (i # rest) cb newPriceIds =
     (let (m1, new1) =
            (if \<not> Map_has m i then (Map_set m i [], newPriceIds @ [i]) else (m, newPriceIds))
      in case Map_get m1 i of
           None \<Rightarrow> (Threw (TypeError ''undefined''), m1, new1)
         | Some cbs \<Rightarrow> subscribe_loop (Map_set m1 i (Set_add cbs cb)) rest cb new1)"

definition subscribePriceFeedUpdates ::
  "PriceServiceConnection \<Rightarrow> HexString list \<Rightarrow> PriceFeedUpdateCallback
     \<Rightarrow> outcome \<times> PriceServiceConnection" where
  "subscribePriceFeedUpdates s priceIds cb =
     (case (if wsClient s = None then startWebSocket s else (Returned, s)) of
        (Threw e, s1) \<Rightarrow> (Threw e, s1)
      | (Returned, s1) \<Rightarrow>
          (case subscribe_loop (priceFeedCallbacks s1)
                  (map removeLeading0xIfExists priceIds) cb [] of
             (Threw e, m, newPriceIds) \<Rightarrow> (Threw e, s1\<lparr>priceFeedCallbacks := m\<rparr>)
           | (Returned, m, newPriceIds) \<Rightarrow>
               (Returned,
                ws_send (Subscribe newPriceIds (verbose s1)) (s1\<lparr>priceFeedCallbacks := m\<rparr>))))"

subsection \<open>unsubscribePriceFeedUpdates\<close>

text \<open>
  The body of \<^verbatim>\<open>if (this.priceFeedCallbacks.has(id))\<close>: the registry after it and the
  flag \<^verbatim>\<open>idRemoved\<close>. \<^verbatim>\<open>get(id)!.delete(cb)\<close> changes the stored set in place.
\<close>

definition unsubscribe_id ::
  "registry \<Rightarrow> HexString \<Rightarrow> PriceFeedUpdateCallback option \<Rightarrow> outcome \<times> registry \<times> bool" where
  "unsubscribe_id m i cb =
     (case cb of
        None \<Rightarrow> (Returned, Map_delete m i, True)
      | Some c \<Rightarrow>
          (case Map_get m i of
             None \<Rightarrow> (Threw (TypeError ''undefined''), m, False)
           | Some cbs \<Rightarrow>
               (let m1 = Map_set m i (Set_delete cbs c)
                in case Map_get m1 i of
                     None \<Rightarrow> (Threw (TypeError ''undefined''), m1, False)
                   | Some cbs1 \<Rightarrow>
                       if length cbs1 = 0 then (Returned, Map_delete m1 i, True)
                       else (Returned, m1, False))))"

fun unsubscribe_loop ::
  "registry \<Rightarrow> HexString list \<Rightarrow> PriceFeedUpdateCallback option \<Rightarrow> HexString list
     \<Rightarrow> outcome \<times> registry \<times> HexString list" where
  "unsubscribe_loop m [] cb removedPriceIds = (Returned, m, removedPriceIds)"
| "unsubscribe_loop m (i # rest) cb removedPriceIds =
     (if Map_has m i then
        (case unsubscribe_id m i cb of
           (Threw e, m1, idRemoved) \<Rightarrow> (Threw e, m1, removedPriceIds)
         | (Returned, m1, idRemoved) \<Rightarrow>
             unsubscribe_loop m1 rest cb
               (if idRemoved then removedPriceIds @ [i] else removedPriceIds))
      else unsubscribe_loop m rest cb removedPriceIds)"

definition unsubscribePriceFeedUpdates ::
  "PriceServiceConnection \<Rightarrow> HexString list \<Rightarrow> PriceFeedUpdateCallback option
     \<Rightarrow> outcome \<times> PriceServiceConnection" where
  "unsubscribePriceFeedUpdates s priceIds cb =
     (case (if wsClient s = None then startWebSocket s else (Returned, s)) of
        (Threw e, s1) \<Rightarrow> (Threw e, s1)
      | (Returned, s1) \<Rightarrow>
          (case unsubscribe_loop (priceFeedCallbacks s1)
                  (map removeLeading0xIfExists priceIds) cb [] of
             (Threw e, m, removedPriceIds) \<Rightarrow> (Threw e, s1\<lparr>priceFeedCallbacks := m\<rparr>)
           | (Returned, m, removedPriceIds) \<Rightarrow>
               (let s2 = ws_send (Unsubscribe removedPriceIds) (s1\<lparr>priceFeedCallbacks := m\<rparr>)
                in (Returned,
                    if length (priceFeedCallbacks s2) = 0 then closeWebSocket s2 else s2))))"

subsection \<open>The handlers installed by startWebSocket\<close>

definition onReconnect :: "PriceServiceConnection \<Rightarrow> PriceServiceConnection" where
  "onReconnect s =
     (if length (priceFeedCallbacks s) > 0
      then ws_send (Subscribe (Map_keys (priceFeedCallbacks s)) (verbose s)) s
      else s)"

text \<open>The subscriber set of a topic; empty when the topic is not a key.\<close>

definition subscribers :: "registry \<Rightarrow> HexString \<Rightarrow> PriceFeedUpdateCallback list" where
  "subscribers m k = (case Map_get m k of None \<Rightarrow> [] | Some cbs \<Rightarrow> cbs)"

text \<open>
  A callback is code of the caller. Besides returning or throwing it can call the public
  methods of the connection while the handler is still in its loop. What a call of a
  callback on a feed does is therefore a list of such calls, made in order, and then
  \<open>None\<close> (it returns) or \<open>Some e\<close> (it throws \<open>e\<close>).
\<close>

datatype call =
    CallSubscribe "HexString list" PriceFeedUpdateCallback
  | CallUnsubscribe "HexString list" "PriceFeedUpdateCallback option"
  | CallCloseWebSocket
  | CallStartWebSocket

type_synonym behaviour = "PriceFeedUpdateCallback \<Rightarrow> PriceFeed \<Rightarrow> call list \<times> error option"

text \<open>
  The effect of one such call on the connection. The two \<^verbatim>\<open>async\<close> methods hand a
  promise back to the callback and never throw into it, so their outcome is dropped. A
  call made by a callback runs to its end inside the callback, as every call does in
  this model; with a transport running, the source too has run the loop over the ids,
  which is what changes a subscriber set, when the callback gets control back.
\<close>

fun perform :: "call \<Rightarrow> PriceServiceConnection \<Rightarrow> PriceServiceConnection" where
  "perform (CallSubscribe priceIds cb) s = snd (subscribePriceFeedUpdates s priceIds cb)"
| "perform (CallUnsubscribe priceIds cb) s = snd (unsubscribePriceFeedUpdates s priceIds cb)"
| "perform CallCloseWebSocket s = closeWebSocket s"
| "perform CallStartWebSocket s = snd (startWebSocket s)"

text \<open>
  The loop \<^verbatim>\<open>for (const cb of this.priceFeedCallbacks.get(priceFeed.id)!)\<close> walks the
  \<^verbatim>\<open>Set\<close> object that the registry held for the topic when the loop began, and it
  walks it live: an element deleted from that object before the loop reaches it is not
  visited, and an element added to it is visited at the end, also when it was visited
  and deleted before. The loop state is the list \<open>pending\<close> of the elements still to be
  visited and the flag \<open>attached\<close>, which says that the registry still holds the walked
  object for the topic.

  \<open>pending_after\<close> is the list after one call of a callback, for a walked object that
  is attached: \<^verbatim>\<open>subscribe\<close> has added its callback to the object when the callback is
  in the topic's set afterwards and was not before; \<^verbatim>\<open>unsubscribe\<close> with a callback
  has deleted it from the object when it was in the set before and is not afterwards
  (this covers the deletion of the last element, after which the key is removed);
  \<^verbatim>\<open>unsubscribe\<close> without a callback and \<^verbatim>\<open>closeWebSocket\<close> remove keys of the
  \<^verbatim>\<open>Map\<close> and leave the walked object as it is.
\<close>

fun pending_after ::
  "call \<Rightarrow> HexString \<Rightarrow> registry \<Rightarrow> registry \<Rightarrow> PriceFeedUpdateCallback list
     \<Rightarrow> PriceFeedUpdateCallback list" where
  "pending_after (CallSubscribe priceIds cb) i before after pending =
     (if cb \<notin> set (subscribers before i) \<and> cb \<in> set (subscribers after i)
      then pending @ [cb] else pending)"
| "pending_after (CallUnsubscribe priceIds None) i before after pending = pending"
| "pending_after (CallUnsubscribe priceIds (Some cb)) i before after pending =
     (if cb \<in> set (subscribers before i) \<and> cb \<notin> set (subscribers after i)
      then removeAll cb pending else pending)"
| "pending_after CallCloseWebSocket i before after pending = pending"
| "pending_after CallStartWebSocket i before after pending = pending"

text \<open>
  The calls of one callback, in order. The walked object stays attached as long as the
  topic stays a key: no single call removes a key and creates it again.
\<close>

fun run_calls ::
  "call list \<Rightarrow> HexString \<Rightarrow> PriceServiceConnection \<times> PriceFeedUpdateCallback list \<times> bool
     \<Rightarrow> PriceServiceConnection \<times> PriceFeedUpdateCallback list \<times> bool" where
  "run_calls [] i st = st"
| "run_calls (c # cs) i (s, pending, attached) =
     (let s' = perform c s
      in run_calls cs i
           (s',
            if attached
            then pending_after c i (priceFeedCallbacks s) (priceFeedCallbacks s') pending
            else pending,
            attached \<and> Map_has (priceFeedCallbacks s') i))"

text \<open>
  The loop itself. The invocation is recorded, the callback makes its calls, and then it
  returns or throws; nothing catches a throw, so it ends the loop and leaves the handler.
  A callback that puts itself or a new callback back into the walked set can keep the
  loop running for ever, so the loop takes fuel, one unit for each invocation: the
  outcome \<open>None\<close> says that the fuel ran out before the loop ended, and the state is then
  the state reached so far.
\<close>

fun invoke_callbacks ::
  "nat \<Rightarrow> behaviour \<Rightarrow> HexString \<Rightarrow> PriceFeed \<Rightarrow> PriceFeedUpdateCallback list \<Rightarrow> bool
     \<Rightarrow> PriceServiceConnection \<Rightarrow> outcome option \<times> PriceServiceConnection" where
  "invoke_callbacks fuel run i priceFeed [] attached s = (Some Returned, s)"
| "invoke_callbacks 0 run i priceFeed (cb # pending) attached s = (None, s)"
| "invoke_callbacks (Suc fuel) run i priceFeed (cb # pending) attached s =
     (case run_calls (fst (run cb priceFeed)) i (emit (Invoke cb priceFeed) s, pending, attached) of
        (s', pending', attached') \<Rightarrow>
          (case snd (run cb priceFeed) of
             Some e \<Rightarrow> (Some (Threw e), s')
           | None \<Rightarrow> invoke_callbacks fuel run i priceFeed pending' attached' s'))"

text \<open>
  \<^verbatim>\<open>this.onWsError\<close> is the caller's hook (by default it only logs); a call of it is
  one event and returns. \<^verbatim>\<open>new Error(undefined)\<close> has the empty message. Only the
  dispatch loop uses the fuel.
\<close>

definition onMessage ::
  "nat \<Rightarrow> behaviour \<Rightarrow> PriceServiceConnection \<Rightarrow> frame
     \<Rightarrow> outcome option \<times> PriceServiceConnection" where
  "onMessage fuel run s data =
     (case data of
        NotJson e \<Rightarrow> (Some Returned, emit (OnWsError e) s)
      | JsonNull \<Rightarrow> (Some (Threw (TypeError ''null'')), s)
      | Response status err \<Rightarrow>
          if status = ''error''
          then (Some Returned,
                emit (OnWsError (Error (case err of None \<Rightarrow> [] | Some t \<Rightarrow> t))) s)
          else (Some Returned, s)
      | PriceUpdate parsed \<Rightarrow>
          (case parsed of
             Inl e \<Rightarrow> (Some Returned, emit (OnWsError e) s)
           | Inr priceFeed \<Rightarrow>
               if Map_has (priceFeedCallbacks s) (feed_id priceFeed) then
                 (case Map_get (priceFeedCallbacks s) (feed_id priceFeed) of
                    None \<Rightarrow> (Some (Threw (TypeError ''undefined'')), s)
                  | Some cbs \<Rightarrow>
                      invoke_callbacks fuel run (feed_id priceFeed) priceFeed cbs True s)
               else (Some Returned, s))
      | Unsupported \<Rightarrow> (Some Returned, s))"

section \<open>Specification-level notions\<close>

text \<open>
  What an unsubscribe call leaves of a subscriber set: nothing when the callback is
  omitted, the set without the callback otherwise.
\<close>

definition remaining ::
  "PriceFeedUpdateCallback list \<Rightarrow> PriceFeedUpdateCallback option \<Rightarrow> PriceFeedUpdateCallback list" where
  "remaining cbs cb = (case cb of None \<Rightarrow> [] | Some c \<Rightarrow> Set_delete cbs c)"

text \<open>The transport an event is about, if any.\<close>

fun event_ws :: "event \<Rightarrow> nat option" where
  "event_ws (WsStart n) = Some n"
| "event_ws (WsSend n message) = Some n"
| "event_ws (WsClose n) = Some n"
| "event_ws (OnWsError e) = None"
| "event_ws (Invoke cb priceFeed) = None"

text \<open>
  What holds of the connection between any two method calls: the registry has each key
  once, every subscriber set is non-empty and without repetition, a non-empty registry
  has a transport, a transport has an endpoint, and every transport reference in use or
  in the events is below the count of transports constructed.
\<close>

definition session_invariant :: "PriceServiceConnection \<Rightarrow> bool" where
  "session_invariant s \<longleftrightarrow>
     distinct (Map_keys (priceFeedCallbacks s)) \<and>
     (\<forall>k cbs. Map_get (priceFeedCallbacks s) k = Some cbs \<longrightarrow> cbs \<noteq> [] \<and> distinct cbs) \<and>
     (priceFeedCallbacks s \<noteq> [] \<longrightarrow> wsClient s \<noteq> None) \<and>
     (wsClient s \<noteq> None \<longrightarrow> wsEndpoint s \<noteq> None) \<and>
     (\<forall>w. wsClient s = Some w \<longrightarrow> w < wsInstances s) \<and>
     (\<forall>e \<in> set (events s). \<forall>n. event_ws e = Some n \<longrightarrow> n < wsInstances s)"

text \<open>
  The states of a connection: the constructor's, and those that the public methods and
  the two transport handlers lead to, in any order and with any arguments. The message
  handler leads to a state when it ends, by returning or by throwing.
\<close>

inductive reachable :: "PriceServiceConnection \<Rightarrow> bool" where
  created: "reachable (new_connection url v)"
| subscribed: "reachable s \<Longrightarrow> reachable (snd (subscribePriceFeedUpdates s priceIds cb))"
| unsubscribed: "reachable s \<Longrightarrow> reachable (snd (unsubscribePriceFeedUpdates s priceIds cbo))"
| started: "reachable s \<Longrightarrow> reachable (snd (startWebSocket s))"
| closed: "reachable s \<Longrightarrow> reachable (closeWebSocket s)"
| reconnected: "reachable s \<Longrightarrow> reachable (onReconnect s)"
| received: "reachable s \<Longrightarrow> fst (onMessage fuel run s data) \<noteq> None \<Longrightarrow>
     reachable (snd (onMessage fuel run s data))"

text \<open>The callbacks invoked, in order, as the events record them.\<close>

primrec invoked :: "event list \<Rightarrow> PriceFeedUpdateCallback list" where
  "invoked [] = []"
| "invoked (e # es) = (case e of Invoke cb priceFeed \<Rightarrow> cb # invoked es | _ \<Rightarrow> invoked es)"

text \<open>
  Example behaviours and sessions, at which the theorems are instantiated. With
  \<open>raises_on c\<close> callback \<open>c\<close> throws on every feed; with \<open>unsubscribes c other\<close> it
  unsubscribes callback \<open>other\<close> from the feed's topic; with \<open>subscribes_again c\<close> it
  unsubscribes itself from the topic and subscribes again. Every other callback returns
  at once. The sessions are built by the methods themselves.
\<close>

definition raises_on :: "PriceFeedUpdateCallback \<Rightarrow> behaviour" where
  "raises_on c cb priceFeed = ([], if cb = c then Some (Error ''fault'') else None)"

definition unsubscribes :: "PriceFeedUpdateCallback \<Rightarrow> PriceFeedUpdateCallback \<Rightarrow> behaviour" where
  "unsubscribes c other cb priceFeed =
     (if cb = c then [CallUnsubscribe [feed_id priceFeed] (Some other)] else [], None)"

definition subscribes_again :: "PriceFeedUpdateCallback \<Rightarrow> behaviour" where
  "subscribes_again c cb priceFeed =
     (if cb = c
      then [CallUnsubscribe [feed_id priceFeed] (Some c), CallSubscribe [feed_id priceFeed] c]
      else [],
      None)"

definition fresh_session :: PriceServiceConnection where
  "fresh_session = new_connection (Some ''wss://host/ws'') False"

definition three_subscribers :: PriceServiceConnection where
  "three_subscribers =
     snd (subscribePriceFeedUpdates
       (snd (subscribePriceFeedUpdates
          (snd (subscribePriceFeedUpdates fresh_session [''ab12''] 1)) [''ab12''] 2))
       [''ab12''] 3)"

definition two_subscribers :: PriceServiceConnection where
  "two_subscribers =
     snd (subscribePriceFeedUpdates
       (snd (subscribePriceFeedUpdates fresh_session [''ab12''] 1)) [''ab12''] 2)"

definition two_topics :: PriceServiceConnection where
  "two_topics =
     snd (subscribePriceFeedUpdates
       (snd (subscribePriceFeedUpdates fresh_session [''cd34''] 1)) [''ab12''] 1)"

text \<open>
  A call can reach a transport when one is running or the endpoint is defined, so that
  \<open>startWebSocket\<close> does not throw.
\<close>

definition startable :: "PriceServiceConnection \<Rightarrow> bool" where
  "startable s \<longleftrightarrow> wsClient s \<noteq> None \<or> wsEndpoint s \<noteq> None"

text \<open>The messages written to a transport, in order.\<close>

primrec wire_messages :: "event list \<Rightarrow> ClientMessage list" where
  "wire_messages [] = []"
| "wire_messages (e # es) =
     (case e of WsSend w message \<Rightarrow> message # wire_messages es | _ \<Rightarrow> wire_messages es)"

text \<open>The registry invariant of the data model: no key with an empty subscriber set.\<close>

definition registry_invariant :: "registry \<Rightarrow> bool" where
  "registry_invariant m \<longleftrightarrow> (\<forall>k \<in> set (Map_keys m). subscribers m k \<noteq> [])"

section \<open>Properties\<close>

subsection \<open>The subscribe loop\<close>

lemma set_Set_add: "set (Set_add xs x) = insert x (set xs)"
  by (auto simp: Set_add_def)

lemma Set_add_nonempty: "Set_add xs x \<noteq> []"
  by (auto simp: Set_add_def)

lemma distinct_Set_add: "distinct xs \<Longrightarrow> distinct (Set_add xs x)"
  by (simp add: Set_add_def)

lemma Set_add_idem: "Set_add (Set_add xs x) x = Set_add xs x"
  by (simp add: Set_add_def)

lemma set_Set_delete: "set (Set_delete xs x) = set xs - {x}"
  by (auto simp: Set_delete_def)

lemma distinct_Set_delete: "distinct xs \<Longrightarrow> distinct (Set_delete xs x)"
  by (simp add: Set_delete_def distinct_removeAll)

lemma Set_delete_idem: "Set_delete (Set_delete xs x) x = Set_delete xs x"
  by (simp add: Set_delete_def)

lemma subscribe_loop_absent:
  "Map_get m i = None \<Longrightarrow>
     subscribe_loop m (i # rest) cb new =
       subscribe_loop (Map_set m i (Set_add [] cb)) rest cb (new @ [i])"
  by (simp add: update_conv')

lemma subscribe_loop_present:
  "Map_get m i = Some cbs \<Longrightarrow>
     subscribe_loop m (i # rest) cb new =
       subscribe_loop (Map_set m i (Set_add cbs cb)) rest cb new"
  by simp

lemma subscribe_loop_returns: "fst (subscribe_loop m is cb new) = Returned"
proof (induction "is" arbitrary: m new)
  case Nil
  show ?case by simp
next
  case (Cons i rest)
  show ?case
    by (cases "Map_get m i")
      (simp_all only: subscribe_loop_absent subscribe_loop_present Cons.IH)
qed

lemma subscribe_loop_map_of:
  "Map_get (fst (snd (subscribe_loop m is cb new))) k =
     (if k \<in> set is then Some (Set_add (subscribers m k) cb) else Map_get m k)"
proof (induction "is" arbitrary: m new)
  case Nil
  show ?case by simp
next
  case (Cons i rest)
  show ?case
  proof (cases "Map_get m i")
    case None
    then show ?thesis
      by (simp add: subscribe_loop_absent Cons.IH update_conv' subscribers_def Set_add_idem
          del: subscribe_loop.simps)
  next
    case (Some cbs)
    then show ?thesis
      by (simp add: subscribe_loop_present Cons.IH update_conv' subscribers_def Set_add_idem
          del: subscribe_loop.simps)
  qed
qed

lemma subscribe_loop_keys_distinct:
  "distinct (Map_keys m) \<Longrightarrow> distinct (Map_keys (fst (snd (subscribe_loop m is cb new))))"
proof (induction "is" arbitrary: m new)
  case Nil
  then show ?case by simp
next
  case (Cons i rest)
  show ?case
  proof (cases "Map_get m i")
    case None
    then show ?thesis
      using Cons.prems
      by (simp add: subscribe_loop_absent Cons.IH distinct_update del: subscribe_loop.simps)
  next
    case (Some cbs)
    then show ?thesis
      using Cons.prems
      by (simp add: subscribe_loop_present Cons.IH distinct_update del: subscribe_loop.simps)
  qed
qed

lemma subscribe_loop_new_set:
  "set (snd (snd (subscribe_loop m is cb new))) = set new \<union> (set is - set (Map_keys m))"
proof (induction "is" arbitrary: m new)
  case Nil
  show ?case by simp
next
  case (Cons i rest)
  show ?case
  proof (cases "Map_get m i")
    case None
    then have "i \<notin> fst ` set m" by (simp add: map_of_eq_None_iff)
    then show ?thesis using None
      by (auto simp add: subscribe_loop_absent Cons.IH dom_update simp del: subscribe_loop.simps)
  next
    case (Some cbs)
    then have "i \<in> fst ` set m" by (metis map_of_eq_None_iff option.distinct(1))
    then show ?thesis using Some
      by (auto simp add: subscribe_loop_present Cons.IH dom_update simp del: subscribe_loop.simps)
  qed
qed

lemma subscribe_loop_new_distinct:
  "distinct new \<Longrightarrow> set new \<subseteq> set (Map_keys m) \<Longrightarrow>
     distinct (snd (snd (subscribe_loop m is cb new)))"
proof (induction "is" arbitrary: m new)
  case Nil
  then show ?case by simp
next
  case (Cons i rest)
  show ?case
  proof (cases "Map_get m i")
    case None
    then have "i \<notin> fst ` set m" by (simp add: map_of_eq_None_iff)
    with Cons.prems have "distinct (new @ [i])" by auto
    moreover have "set (new @ [i]) \<subseteq> set (Map_keys (Map_set m i (Set_add [] cb)))"
      using Cons.prems by (auto simp: dom_update)
    ultimately show ?thesis using None
      by (simp only: subscribe_loop_absent Cons.IH)
  next
    case (Some cbs)
    have "set new \<subseteq> set (Map_keys (Map_set m i (Set_add cbs cb)))"
      using Cons.prems by (auto simp: dom_update)
    with Cons.prems show ?thesis using Some
      by (simp only: subscribe_loop_present Cons.IH)
  qed
qed

subsection \<open>The unsubscribe loop\<close>

lemma remaining_idem: "remaining (remaining cbs cb) cb = remaining cbs cb"
  by (cases cb) (simp_all add: remaining_def Set_delete_idem Set_delete_def)

lemma unsubscribe_id_present:
  "Map_get m i = Some cbs \<Longrightarrow>
     unsubscribe_id m i cb =
       (if remaining cbs cb = [] then (Returned, Map_delete m i, True)
        else (Returned, Map_set m i (remaining cbs cb), False))"
  by (cases cb) (simp_all add: unsubscribe_id_def remaining_def update_conv' delete_update_same)

lemma unsubscribe_loop_absent:
  "Map_get m i = None \<Longrightarrow> unsubscribe_loop m (i # rest) cb removed = unsubscribe_loop m rest cb removed"
  by simp

lemma unsubscribe_loop_removed:
  "Map_get m i = Some cbs \<Longrightarrow> remaining cbs cb = [] \<Longrightarrow>
     unsubscribe_loop m (i # rest) cb removed =
       unsubscribe_loop (Map_delete m i) rest cb (removed @ [i])"
  by (simp add: unsubscribe_id_present)

lemma unsubscribe_loop_kept:
  "Map_get m i = Some cbs \<Longrightarrow> remaining cbs cb \<noteq> [] \<Longrightarrow>
     unsubscribe_loop m (i # rest) cb removed =
       unsubscribe_loop (Map_set m i (remaining cbs cb)) rest cb removed"
  by (simp add: unsubscribe_id_present)

lemmas unsubscribe_loop_step =
  unsubscribe_loop_absent unsubscribe_loop_removed unsubscribe_loop_kept

lemma unsubscribe_loop_returns: "fst (unsubscribe_loop m is cb removed) = Returned"
proof (induction "is" arbitrary: m removed)
  case Nil
  show ?case by simp
next
  case (Cons i rest)
  show ?case
  proof (cases "Map_get m i")
    case None
    then show ?thesis by (simp add: unsubscribe_loop_step Cons.IH del: unsubscribe_loop.simps)
  next
    case (Some cbs)
    then show ?thesis
      by (cases "remaining cbs cb = []") (simp_all add: unsubscribe_loop_step Cons.IH del: unsubscribe_loop.simps)
  qed
qed

lemma unsubscribe_loop_map_of:
  "Map_get (fst (snd (unsubscribe_loop m is cb removed))) k =
     (if k \<in> set is then
        (case Map_get m k of
           None \<Rightarrow> None
         | Some cbs \<Rightarrow> if remaining cbs cb = [] then None else Some (remaining cbs cb))
      else Map_get m k)"
proof (induction "is" arbitrary: m removed)
  case Nil
  show ?case by simp
next
  case (Cons i rest)
  show ?case
  proof (cases "Map_get m i")
    case None
    then show ?thesis
      by (simp add: unsubscribe_loop_step Cons.IH del: unsubscribe_loop.simps)
  next
    case (Some cbs)
    then show ?thesis
      by (cases "remaining cbs cb = []")
        (simp_all add: unsubscribe_loop_step Cons.IH update_conv' delete_conv' remaining_idem
          del: unsubscribe_loop.simps)
  qed
qed

lemma unsubscribe_loop_keys_distinct:
  "distinct (Map_keys m) \<Longrightarrow>
     distinct (Map_keys (fst (snd (unsubscribe_loop m is cb removed))))"
proof (induction "is" arbitrary: m removed)
  case Nil
  then show ?case by simp
next
  case (Cons i rest)
  show ?case
  proof (cases "Map_get m i")
    case None
    then show ?thesis
      using Cons.prems
      by (simp add: unsubscribe_loop_step Cons.IH del: unsubscribe_loop.simps)
  next
    case (Some cbs)
    then show ?thesis
      using Cons.prems
      by (cases "remaining cbs cb = []")
        (simp_all add: unsubscribe_loop_step Cons.IH distinct_update distinct_delete
          del: unsubscribe_loop.simps)
  qed
qed

lemma unsubscribe_loop_removed_set:
  "set (snd (snd (unsubscribe_loop m is cb removed))) =
     set removed \<union> {k \<in> set is. \<exists>cbs. Map_get m k = Some cbs \<and> remaining cbs cb = []}"
proof (induction "is" arbitrary: m removed)
  case Nil
  show ?case by simp
next
  case (Cons i rest)
  show ?case
  proof (cases "Map_get m i")
    case None
    then show ?thesis
      by (auto simp add: unsubscribe_loop_step Cons.IH simp del: unsubscribe_loop.simps)
  next
    case (Some cbs)
    then show ?thesis
      by (cases "remaining cbs cb = []")
        (auto simp add: unsubscribe_loop_step Cons.IH update_conv' delete_conv' remaining_idem
          simp del: unsubscribe_loop.simps split: if_splits)
  qed
qed

lemma unsubscribe_loop_removed_distinct:
  "distinct removed \<Longrightarrow> set removed \<inter> set (Map_keys m) = {} \<Longrightarrow>
     distinct (snd (snd (unsubscribe_loop m is cb removed)))"
proof (induction "is" arbitrary: m removed)
  case Nil
  then show ?case by simp
next
  case (Cons i rest)
  show ?case
  proof (cases "Map_get m i")
    case None
    then show ?thesis
      using Cons.prems
      by (simp add: unsubscribe_loop_step Cons.IH del: unsubscribe_loop.simps)
  next
    case (Some cbs)
    then have in_keys: "i \<in> fst ` set m" by (metis map_of_eq_None_iff option.distinct(1))
    show ?thesis
    proof (cases "remaining cbs cb = []")
      case True
      have "distinct (removed @ [i])" using Cons.prems in_keys by auto
      moreover have "set (removed @ [i]) \<inter> set (Map_keys (Map_delete m i)) = {}"
        using Cons.prems by (auto simp: delete_keys)
      ultimately show ?thesis using Some True
        by (simp add: unsubscribe_loop_step Cons.IH del: unsubscribe_loop.simps)
    next
      case False
      have "set removed \<inter> set (Map_keys (Map_set m i (remaining cbs cb))) = {}"
        using Cons.prems in_keys by (auto simp: dom_update)
      then show ?thesis using Some False Cons.prems
        by (simp add: unsubscribe_loop_step Cons.IH del: unsubscribe_loop.simps)
    qed
  qed
qed

subsection \<open>What the methods return\<close>

lemma subscribe_loop_eq:
  "subscribe_loop m is cb new =
     (Returned, fst (snd (subscribe_loop m is cb new)), snd (snd (subscribe_loop m is cb new)))"
  using subscribe_loop_returns [of m "is" cb new] by (metis prod.collapse)

lemma unsubscribe_loop_eq:
  "unsubscribe_loop m is cb removed =
     (Returned, fst (snd (unsubscribe_loop m is cb removed)),
      snd (snd (unsubscribe_loop m is cb removed)))"
  using unsubscribe_loop_returns [of m "is" cb removed] by (metis prod.collapse)

lemma startWebSocket_endpoint:
  "wsEndpoint s = Some url \<Longrightarrow>
     startWebSocket s =
       (Returned,
        s\<lparr>wsClient := Some (wsInstances s), wsInstances := Suc (wsInstances s),
          events := events s @ [WsStart (wsInstances s)]\<rparr>)"
  by (simp add: startWebSocket_def emit_def)

lemma startWebSocket_no_endpoint:
  "wsEndpoint s = None \<Longrightarrow>
     startWebSocket s = (Threw (Error ''Websocket endpoint is undefined.''), s)"
  by (simp add: startWebSocket_def)

lemma subscribe_running:
  "wsClient s = Some w \<Longrightarrow>
     subscribePriceFeedUpdates s priceIds cb =
       (Returned,
        s\<lparr>priceFeedCallbacks :=
            fst (snd (subscribe_loop (priceFeedCallbacks s)
                        (map removeLeading0xIfExists priceIds) cb [])),
          events := events s @
            [WsSend w (Subscribe
               (snd (snd (subscribe_loop (priceFeedCallbacks s)
                            (map removeLeading0xIfExists priceIds) cb [])))
               (verbose s))]\<rparr>)"
  unfolding subscribePriceFeedUpdates_def
  by (subst subscribe_loop_eq) (simp add: ws_send_def emit_def case_prod_beta)

lemma subscribe_inactive:
  "wsClient s = None \<Longrightarrow> wsEndpoint s = Some url \<Longrightarrow>
     subscribePriceFeedUpdates s priceIds cb =
       subscribePriceFeedUpdates (snd (startWebSocket s)) priceIds cb"
  by (simp add: subscribePriceFeedUpdates_def startWebSocket_endpoint)

lemma subscribe_no_endpoint:
  "wsClient s = None \<Longrightarrow> wsEndpoint s = None \<Longrightarrow>
     subscribePriceFeedUpdates s priceIds cb =
       (Threw (Error ''Websocket endpoint is undefined.''), s)"
  by (simp add: subscribePriceFeedUpdates_def startWebSocket_no_endpoint)

lemma unsubscribe_running:
  "wsClient s = Some w \<Longrightarrow>
     unsubscribePriceFeedUpdates s priceIds cbo =
       (Returned,
        if fst (snd (unsubscribe_loop (priceFeedCallbacks s)
                       (map removeLeading0xIfExists priceIds) cbo [])) = []
        then s\<lparr>priceFeedCallbacks := [], wsClient := None,
               events := events s @
                 [WsSend w (Unsubscribe
                    (snd (snd (unsubscribe_loop (priceFeedCallbacks s)
                                 (map removeLeading0xIfExists priceIds) cbo [])))),
                  WsClose w]\<rparr>
        else s\<lparr>priceFeedCallbacks :=
                 fst (snd (unsubscribe_loop (priceFeedCallbacks s)
                             (map removeLeading0xIfExists priceIds) cbo [])),
               events := events s @
                 [WsSend w (Unsubscribe
                    (snd (snd (unsubscribe_loop (priceFeedCallbacks s)
                                 (map removeLeading0xIfExists priceIds) cbo []))))]\<rparr>)"
  unfolding unsubscribePriceFeedUpdates_def
  by (subst unsubscribe_loop_eq) (simp add: ws_send_def emit_def closeWebSocket_def case_prod_beta Let_def)

lemma unsubscribe_inactive:
  "wsClient s = None \<Longrightarrow> wsEndpoint s = Some url \<Longrightarrow>
     unsubscribePriceFeedUpdates s priceIds cbo =
       unsubscribePriceFeedUpdates (snd (startWebSocket s)) priceIds cbo"
  by (simp add: unsubscribePriceFeedUpdates_def startWebSocket_endpoint)

lemma unsubscribe_no_endpoint:
  "wsClient s = None \<Longrightarrow> wsEndpoint s = None \<Longrightarrow>
     unsubscribePriceFeedUpdates s priceIds cbo =
       (Threw (Error ''Websocket endpoint is undefined.''), s)"
  by (simp add: unsubscribePriceFeedUpdates_def startWebSocket_no_endpoint)

subsection \<open>The session invariant\<close>

lemma invariant_created: "session_invariant (new_connection url v)"
  by (simp add: session_invariant_def new_connection_def)

lemma invariant_started:
  assumes "session_invariant s"
  shows "session_invariant (snd (startWebSocket s))"
proof (cases "wsEndpoint s")
  case None
  then show ?thesis using assms by (simp add: startWebSocket_no_endpoint)
next
  case (Some url)
  have "n < wsInstances s \<Longrightarrow> n < Suc (wsInstances s)" for n by simp
  then show ?thesis
    using assms Some
    by (auto simp add: startWebSocket_endpoint session_invariant_def)
qed

lemma invariant_closed:
  assumes "session_invariant s"
  shows "session_invariant (closeWebSocket s)"
  using assms
  by (cases "wsClient s") (auto simp add: closeWebSocket_def session_invariant_def emit_def)

lemma invariant_reconnected:
  assumes "session_invariant s"
  shows "session_invariant (onReconnect s)"
  using assms
  by (cases "wsClient s") (auto simp add: onReconnect_def ws_send_def session_invariant_def emit_def)

lemma invariant_subscribed_running:
  assumes inv: "session_invariant s" and ws: "wsClient s = Some w"
  shows "session_invariant (snd (subscribePriceFeedUpdates s priceIds cb))"
proof -
  let ?m = "fst (snd (subscribe_loop (priceFeedCallbacks s)
                        (map removeLeading0xIfExists priceIds) cb []))"
  have keys: "distinct (Map_keys ?m)"
    using inv by (simp add: session_invariant_def subscribe_loop_keys_distinct)
  have vals: "cbs \<noteq> [] \<and> distinct cbs" if "Map_get ?m k = Some cbs" for k cbs
  proof (cases "k \<in> set (map removeLeading0xIfExists priceIds)")
    case True
    with that have cbs: "cbs = Set_add (subscribers (priceFeedCallbacks s) k) cb"
      by (simp add: subscribe_loop_map_of)
    have "distinct (subscribers (priceFeedCallbacks s) k)"
      using inv by (auto simp add: session_invariant_def subscribers_def split: option.split)
    then show ?thesis by (simp add: cbs Set_add_nonempty distinct_Set_add)
  next
    case False
    with that have "Map_get (priceFeedCallbacks s) k = Some cbs"
      by (simp add: subscribe_loop_map_of)
    then show ?thesis using inv by (simp add: session_invariant_def)
  qed
  show ?thesis
    using inv ws keys vals
    by (auto simp add: subscribe_running [OF ws] session_invariant_def)
qed

lemma invariant_subscribed:
  assumes inv: "session_invariant s"
  shows "session_invariant (snd (subscribePriceFeedUpdates s priceIds cb))"
proof (cases "wsClient s")
  case (Some w)
  then show ?thesis using inv by (rule invariant_subscribed_running [rotated])
next
  case None
  show ?thesis
  proof (cases "wsEndpoint s")
    case no: None
    then show ?thesis using inv None by (simp add: subscribe_no_endpoint)
  next
    case (Some url)
    have "wsClient (snd (startWebSocket s)) = Some (wsInstances s)"
      using Some by (simp add: startWebSocket_endpoint)
    with invariant_started [OF inv]
    have "session_invariant (snd (subscribePriceFeedUpdates (snd (startWebSocket s)) priceIds cb))"
      by (rule invariant_subscribed_running)
    then show ?thesis using None Some by (simp add: subscribe_inactive)
  qed
qed

lemma invariant_unsubscribed_running:
  assumes inv: "session_invariant s" and ws: "wsClient s = Some w"
  shows "session_invariant (snd (unsubscribePriceFeedUpdates s priceIds cbo))"
proof -
  let ?m = "fst (snd (unsubscribe_loop (priceFeedCallbacks s)
                        (map removeLeading0xIfExists priceIds) cbo []))"
  have keys: "distinct (Map_keys ?m)"
    using inv by (simp add: session_invariant_def unsubscribe_loop_keys_distinct)
  have vals: "cbs \<noteq> [] \<and> distinct cbs" if "Map_get ?m k = Some cbs" for k cbs
  proof (cases "k \<in> set (map removeLeading0xIfExists priceIds)")
    case True
    with that obtain old where old: "Map_get (priceFeedCallbacks s) k = Some old"
      and cbs: "cbs = remaining old cbo" and ne: "remaining old cbo \<noteq> []"
      by (auto simp add: unsubscribe_loop_map_of split: option.splits if_splits)
    have "distinct old" using inv old by (simp add: session_invariant_def)
    then have "distinct (remaining old cbo)"
      by (cases cbo) (simp_all add: remaining_def distinct_Set_delete)
    then show ?thesis using cbs ne by simp
  next
    case False
    with that have "Map_get (priceFeedCallbacks s) k = Some cbs"
      by (simp add: unsubscribe_loop_map_of)
    then show ?thesis using inv by (simp add: session_invariant_def)
  qed
  show ?thesis
    using inv ws keys vals
    by (auto simp add: unsubscribe_running [OF ws] session_invariant_def)
qed

lemma invariant_unsubscribed:
  assumes inv: "session_invariant s"
  shows "session_invariant (snd (unsubscribePriceFeedUpdates s priceIds cbo))"
proof (cases "wsClient s")
  case (Some w)
  then show ?thesis using inv by (rule invariant_unsubscribed_running [rotated])
next
  case None
  show ?thesis
  proof (cases "wsEndpoint s")
    case no: None
    then show ?thesis using inv None by (simp add: unsubscribe_no_endpoint)
  next
    case (Some url)
    have "wsClient (snd (startWebSocket s)) = Some (wsInstances s)"
      using Some by (simp add: startWebSocket_endpoint)
    with invariant_started [OF inv]
    have "session_invariant (snd (unsubscribePriceFeedUpdates (snd (startWebSocket s)) priceIds cbo))"
      by (rule invariant_unsubscribed_running)
    then show ?thesis using None Some by (simp add: unsubscribe_inactive)
  qed
qed

lemma invariant_invoked:
  assumes "session_invariant s"
  shows "session_invariant (emit (Invoke cb f) s)"
  using assms by (simp add: session_invariant_def emit_def)

lemma invariant_performed:
  assumes "session_invariant s"
  shows "session_invariant (perform c s)"
proof (cases c)
  case (CallSubscribe priceIds cb)
  then show ?thesis using assms by (simp add: invariant_subscribed)
next
  case (CallUnsubscribe priceIds cbo)
  then show ?thesis using assms by (simp add: invariant_unsubscribed)
next
  case CallCloseWebSocket
  then show ?thesis using assms by (simp add: invariant_closed)
next
  case CallStartWebSocket
  then show ?thesis using assms by (simp add: invariant_started)
qed

lemma invariant_run_calls:
  "session_invariant s \<Longrightarrow> session_invariant (fst (run_calls cs i (s, pending, attached)))"
  by (induction cs arbitrary: s pending attached) (simp_all add: Let_def invariant_performed)

lemma invariant_invoke_callbacks:
  "session_invariant s \<Longrightarrow>
     session_invariant (snd (invoke_callbacks fuel run i f pending attached s))"
proof (induction fuel run i f pending attached s rule: invoke_callbacks.induct)
  case (1 fuel run i priceFeed attached s)
  then show ?case by simp
next
  case (2 run i priceFeed cb pending attached s)
  then show ?case by simp
next
  case (3 fuel run i priceFeed cb pending attached s)
  obtain s' pending' attached' where
    rc: "run_calls (fst (run cb priceFeed)) i (emit (Invoke cb priceFeed) s, pending, attached) =
      (s', pending', attached')"
    by (cases "run_calls (fst (run cb priceFeed)) i (emit (Invoke cb priceFeed) s, pending, attached)")
  have inv': "session_invariant s'"
    using invariant_run_calls [OF invariant_invoked [OF "3.prems"], of "fst (run cb priceFeed)" i
        cb priceFeed pending attached]
    by (simp add: rc)
  show ?case
  proof (cases "snd (run cb priceFeed)")
    case None
    then show ?thesis using "3.IH" [OF rc [symmetric] refl None inv'] by (simp add: rc)
  next
    case (Some e)
    then show ?thesis using inv' by (simp add: rc)
  qed
qed

lemma invariant_reported:
  assumes "session_invariant s"
  shows "session_invariant (emit (OnWsError e) s)"
  using assms by (simp add: session_invariant_def emit_def)

lemma invariant_received:
  assumes "session_invariant s"
  shows "session_invariant (snd (onMessage fuel run s data))"
  using assms
  by (simp add: onMessage_def invariant_invoke_callbacks invariant_reported
      split: frame.split sum.split option.split)

lemma reachable_invariant: "reachable s \<Longrightarrow> session_invariant s"
  by (induction rule: reachable.induct)
    (simp_all add: invariant_created invariant_subscribed invariant_unsubscribed
      invariant_started invariant_closed invariant_reconnected invariant_received)

lemmas run_defs =
  subscribePriceFeedUpdates_def unsubscribePriceFeedUpdates_def startWebSocket_def
  closeWebSocket_def onReconnect_def onMessage_def new_connection_def emit_def ws_send_def
  Set_add_def Set_delete_def unsubscribe_id_def removeLeading0xIfExists_def toLowerCase_def
  fresh_session_def

subsection \<open>The example sessions\<close>

lemma three_subscribers_eq:
  "three_subscribers =
     \<lparr>priceFeedCallbacks = [(''ab12'', [1, 2, 3])], wsClient = Some 0,
      wsEndpoint = Some ''wss://host/ws'', verbose = False, wsInstances = 1,
      events = [WsStart 0, WsSend 0 (Subscribe [''ab12''] False),
                WsSend 0 (Subscribe [] False), WsSend 0 (Subscribe [] False)]\<rparr>"
  by (simp add: three_subscribers_def run_defs)


lemma two_topics_eq:
  "two_topics =
     \<lparr>priceFeedCallbacks = [(''cd34'', [1]), (''ab12'', [1])], wsClient = Some 0,
      wsEndpoint = Some ''wss://host/ws'', verbose = False, wsInstances = 1,
      events = [WsStart 0, WsSend 0 (Subscribe [''cd34''] False),
                WsSend 0 (Subscribe [''ab12''] False)]\<rparr>"
  by (simp add: two_topics_def run_defs)

lemma two_topics_reachable: "reachable two_topics"
  unfolding two_topics_def fresh_session_def
  by (intro reachable.subscribed reachable.created)

lemma two_subscribers_eq:
  "two_subscribers =
     \<lparr>priceFeedCallbacks = [(''ab12'', [1, 2])], wsClient = Some 0,
      wsEndpoint = Some ''wss://host/ws'', verbose = False, wsInstances = 1,
      events = [WsStart 0, WsSend 0 (Subscribe [''ab12''] False),
                WsSend 0 (Subscribe [] False)]\<rparr>"
  by (simp add: two_subscribers_def run_defs)

lemma two_subscribers_reachable: "reachable two_subscribers"
  unfolding two_subscribers_def fresh_session_def
  by (intro reachable.subscribed reachable.created)

subsection \<open>The dispatch loop\<close>

lemma invoked_append: "invoked (xs @ ys) = invoked xs @ invoked ys"
  by (induction xs) (simp_all split: event.split)

lemma invoked_Invoke: "invoked (map (\<lambda>c. Invoke c f) cbs) = cbs"
  by (induction cbs) simp_all





lemma invoke_callbacks_step:
  "invoke_callbacks (Suc fuel) run i f (cb # pending) attached s =
     (let st = run_calls (fst (run cb f)) i (emit (Invoke cb f) s, pending, attached)
      in case snd (run cb f) of
           Some e \<Rightarrow> (Some (Threw e), fst st)
         | None \<Rightarrow> invoke_callbacks fuel run i f (fst (snd st)) (snd (snd st)) (fst st))"
  by (simp add: Let_def case_prod_beta)



text \<open>Callbacks that make no calls and return: the loop passes them one by one.\<close>

lemma invoke_callbacks_plain:
  assumes "\<forall>b \<in> set before. run b f = ([], None)"
  shows "invoke_callbacks (length before + fuel) run i f (before @ rest) attached s =
     invoke_callbacks fuel run i f rest attached
       (s\<lparr>events := events s @ map (\<lambda>c. Invoke c f) before\<rparr>)"
  using assms
proof (induction before arbitrary: s)
  case Nil
  show ?case by simp
next
  case (Cons b before)
  then have b: "run b f = ([], None)" and rest: "\<forall>b \<in> set before. run b f = ([], None)"
    by simp_all
  have "invoke_callbacks (length (b # before) + fuel) run i f ((b # before) @ rest) attached s =
      invoke_callbacks (length before + fuel) run i f (before @ rest) attached
        (emit (Invoke b f) s)"
    by (simp add: b)
  also have "\<dots> = invoke_callbacks fuel run i f rest attached
      ((emit (Invoke b f) s)\<lparr>events := events (emit (Invoke b f) s) @ map (\<lambda>c. Invoke c f) before\<rparr>)"
    by (rule Cons.IH [OF rest])
  finally show ?case by (simp add: emit_def)
qed

lemma invoke_callbacks_all_plain:
  assumes plain: "\<forall>b \<in> set cbs. run b f = ([], None)" and fuel: "length cbs \<le> fuel"
  shows "invoke_callbacks fuel run i f cbs attached s =
     (Some Returned, s\<lparr>events := events s @ map (\<lambda>c. Invoke c f) cbs\<rparr>)"
proof -
  from fuel obtain m where m: "fuel = length cbs + m"
    using le_Suc_ex by blast
  have "invoke_callbacks (length cbs + m) run i f (cbs @ []) attached s =
      invoke_callbacks m run i f [] attached (s\<lparr>events := events s @ map (\<lambda>c. Invoke c f) cbs\<rparr>)"
    using plain by (rule invoke_callbacks_plain)
  then show ?thesis by (simp add: m)
qed

lemma invoke_callbacks_throw_after_plain:
  assumes plain: "\<forall>b \<in> set before. run b f = ([], None)"
    and c: "run c f = (calls, Some e)"
    and fuel: "length before < fuel"
  shows "invoke_callbacks fuel run i f (before @ c # after) attached s =
     (Some (Threw e),
      fst (run_calls calls i
             (emit (Invoke c f) (s\<lparr>events := events s @ map (\<lambda>c. Invoke c f) before\<rparr>),
              after, attached)))"
proof -
  from fuel obtain m where m: "fuel = length before + Suc m"
    by (metis add_Suc_right less_iff_Suc_add)
  let ?s0 = "s\<lparr>events := events s @ map (\<lambda>c. Invoke c f) before\<rparr>"
  have "invoke_callbacks (length before + Suc m) run i f (before @ c # after) attached s =
      invoke_callbacks (Suc m) run i f (c # after) attached ?s0"
    using plain by (rule invoke_callbacks_plain)
  also have "\<dots> =
      (Some (Threw e), fst (run_calls calls i (emit (Invoke c f) ?s0, after, attached)))"
    unfolding invoke_callbacks_step by (simp add: c Let_def)
  finally show ?thesis unfolding m .
qed

lemma onMessage_update:
  "Map_get (priceFeedCallbacks s) (feed_id f) = Some cbs \<Longrightarrow>
     onMessage fuel run s (PriceUpdate (Inr f)) = invoke_callbacks fuel run (feed_id f) f cbs True s"
  by (simp add: onMessage_def)

lemma live_set_example:
  "onMessage 3 (unsubscribes 1 2) three_subscribers (PriceUpdate (Inr (PriceFeed ''ab12'' 7))) =
     (Some Returned,
      three_subscribers\<lparr>priceFeedCallbacks := [(''ab12'', [1, 3])],
        events := events three_subscribers @
          [Invoke 1 (PriceFeed ''ab12'' 7), WsSend 0 (Unsubscribe []),
           Invoke 3 (PriceFeed ''ab12'' 7)]\<rparr>)"
  by (simp add: three_subscribers_eq run_defs unsubscribes_def subscribers_def eval_nat_numeral)

lemma endless_loop_example:
  "fst (onMessage 5 (subscribes_again 1) three_subscribers
          (PriceUpdate (Inr (PriceFeed ''ab12'' 7)))) = None \<and>
   invoked (events (snd (onMessage 5 (subscribes_again 1) three_subscribers
          (PriceUpdate (Inr (PriceFeed ''ab12'' 7)))))) = [1, 2, 3, 1, 1]"
  by (simp add: three_subscribers_eq run_defs subscribes_again_def subscribers_def
      eval_nat_numeral)

subsection \<open>Inbound dispatch\<close>




text \<open>
  Claim C7. A frame that \<^verbatim>\<open>JSON.parse\<close> rejects makes the handler call the error hook
  once with the parse error and return: the only event added is that call (so no
  callback is invoked), and the registry and every other field are unchanged.
\<close>

theorem malformed_frame_reported_once:
  "onMessage fuel run s (NotJson e) = (Some Returned, s\<lparr>events := events s @ [OnWsError e]\<rparr>) \<and>
   priceFeedCallbacks (snd (onMessage fuel run s (NotJson e))) = priceFeedCallbacks s"
  by (simp add: onMessage_def emit_def)

subsection \<open>Keys of the registry\<close>

lemma subscribe_loop_keys:
  "fst ` set (fst (snd (subscribe_loop m is cb new))) = fst ` set m \<union> set is"
proof -
  have "dom (Map_get (fst (snd (subscribe_loop m is cb new)))) = dom (Map_get m) \<union> set is"
    by (auto simp add: subscribe_loop_map_of dom_def)
  then show ?thesis by (simp add: dom_map_of_conv_image_fst)
qed

lemma subscribe_startable:
  assumes "startable s"
  shows "\<exists>w. wsClient (snd (subscribePriceFeedUpdates s priceIds cb)) = Some w"
proof (cases "wsClient s")
  case (Some w)
  then show ?thesis by (simp add: subscribe_running)
next
  case None
  with assms obtain url where url: "wsEndpoint s = Some url" by (auto simp: startable_def)
  have "wsClient (snd (startWebSocket s)) = Some (wsInstances s)"
    using url by (simp add: startWebSocket_endpoint)
  then show ?thesis using None url by (simp add: subscribe_inactive subscribe_running)
qed

lemma subscribe_keys:
  assumes "startable s"
  shows "fst ` set (priceFeedCallbacks (snd (subscribePriceFeedUpdates s priceIds cb))) =
     fst ` set (priceFeedCallbacks s) \<union> removeLeading0xIfExists ` set priceIds"
proof (cases "wsClient s")
  case (Some w)
  then show ?thesis by (simp add: subscribe_running subscribe_loop_keys)
next
  case None
  with assms obtain url where url: "wsEndpoint s = Some url" by (auto simp: startable_def)
  have "wsClient (snd (startWebSocket s)) = Some (wsInstances s)"
    and "priceFeedCallbacks (snd (startWebSocket s)) = priceFeedCallbacks s"
    using url by (simp_all add: startWebSocket_endpoint)
  then show ?thesis using None url
    by (simp add: subscribe_inactive subscribe_running subscribe_loop_keys)
qed

lemma subscribe_keys_not_startable:
  assumes "\<not> startable s"
  shows "snd (subscribePriceFeedUpdates s priceIds cb) = s"
  using assms by (simp add: startable_def subscribe_no_endpoint)

lemma subscribe_twice_keys:
  "fst ` set (priceFeedCallbacks
      (snd (subscribePriceFeedUpdates (snd (subscribePriceFeedUpdates s as cb)) bs cb'))) =
   (if startable s
    then fst ` set (priceFeedCallbacks s) \<union> removeLeading0xIfExists ` set as \<union>
         removeLeading0xIfExists ` set bs
    else fst ` set (priceFeedCallbacks s))"
proof (cases "startable s")
  case True
  then have "startable (snd (subscribePriceFeedUpdates s as cb))"
    using subscribe_startable [OF True, of as cb] by (auto simp: startable_def)
  then show ?thesis using True by (simp add: subscribe_keys)
next
  case False
  then show ?thesis by (simp add: subscribe_keys_not_startable)
qed

subsection \<open>Reconnect\<close>

text \<open>
  Claim C2. In every state the connection can reach, the reconnect handler with a
  non-empty registry writes exactly one message to the current transport: a subscribe
  message whose ids are the keys of the registry, each once. That set of keys does not
  depend on the order in which two subscribe calls added their topics. With an empty
  registry the handler changes nothing.
\<close>

theorem reconnect_resends_all_keys:
  assumes "reachable s"
  shows
    "(priceFeedCallbacks s \<noteq> [] \<longrightarrow>
        (\<exists>w. wsClient s = Some w \<and>
           onReconnect s =
             s\<lparr>events := events s @
                [WsSend w (Subscribe (Map_keys (priceFeedCallbacks s)) (verbose s))]\<rparr>) \<and>
        distinct (Map_keys (priceFeedCallbacks s)) \<and>
        set (Map_keys (priceFeedCallbacks s)) = {k. Map_has (priceFeedCallbacks s) k}) \<and>
     (priceFeedCallbacks s = [] \<longrightarrow> onReconnect s = s) \<and>
     set (Map_keys (priceFeedCallbacks
        (snd (subscribePriceFeedUpdates (snd (subscribePriceFeedUpdates s as cb)) bs cb')))) =
     set (Map_keys (priceFeedCallbacks
        (snd (subscribePriceFeedUpdates (snd (subscribePriceFeedUpdates s bs cb')) as cb))))"
proof (intro conjI impI)
  assume ne: "priceFeedCallbacks s \<noteq> []"
  with reachable_invariant [OF assms] obtain w where w: "wsClient s = Some w"
    by (auto simp: session_invariant_def)
  have "onReconnect s =
      s\<lparr>events := events s @
         [WsSend w (Subscribe (Map_keys (priceFeedCallbacks s)) (verbose s))]\<rparr>"
    using ne w by (simp add: onReconnect_def ws_send_def emit_def)
  with w show "\<exists>w. wsClient s = Some w \<and>
      onReconnect s =
        s\<lparr>events := events s @
           [WsSend w (Subscribe (Map_keys (priceFeedCallbacks s)) (verbose s))]\<rparr>"
    by simp
  show "distinct (Map_keys (priceFeedCallbacks s))"
    using reachable_invariant [OF assms] by (simp add: session_invariant_def)
  show "set (Map_keys (priceFeedCallbacks s)) = {k. Map_has (priceFeedCallbacks s) k}"
    using dom_map_of_conv_image_fst [of "priceFeedCallbacks s"] by (auto simp: dom_def)
next
  assume "priceFeedCallbacks s = []"
  then show "onReconnect s = s" by (simp add: onReconnect_def)
next
  show "set (Map_keys (priceFeedCallbacks
        (snd (subscribePriceFeedUpdates (snd (subscribePriceFeedUpdates s as cb)) bs cb')))) =
     set (Map_keys (priceFeedCallbacks
        (snd (subscribePriceFeedUpdates (snd (subscribePriceFeedUpdates s bs cb')) as cb))))"
    by (auto simp add: subscribe_twice_keys)
qed

theorem reconnect_resends_all_keys_witness:
  "reachable two_topics \<and> priceFeedCallbacks two_topics \<noteq> [] \<and>
   onReconnect two_topics =
     two_topics\<lparr>events := events two_topics @
        [WsSend 0 (Subscribe [''cd34'', ''ab12''] False)]\<rparr> \<and>
   reachable fresh_session \<and> priceFeedCallbacks fresh_session = [] \<and>
   onReconnect fresh_session = fresh_session"
proof -
  have ne: "priceFeedCallbacks two_topics \<noteq> []" by (simp add: two_topics_eq)
  have empty: "priceFeedCallbacks fresh_session = []"
    by (simp add: fresh_session_def new_connection_def)
  have fresh: "reachable fresh_session"
    unfolding fresh_session_def by (rule reachable.created)
  from reconnect_resends_all_keys [OF two_topics_reachable, THEN conjunct1, rule_format, OF ne]
  obtain w where "wsClient two_topics = Some w"
    and "onReconnect two_topics =
      two_topics\<lparr>events := events two_topics @
         [WsSend w (Subscribe (Map_keys (priceFeedCallbacks two_topics)) (verbose two_topics))]\<rparr>"
    by blast
  then have a: "onReconnect two_topics =
     two_topics\<lparr>events := events two_topics @
        [WsSend 0 (Subscribe [''cd34'', ''ab12''] False)]\<rparr>"
    by (simp add: two_topics_eq)
  have b: "onReconnect fresh_session = fresh_session"
    using reconnect_resends_all_keys [OF fresh, THEN conjunct2, THEN conjunct1] empty by (rule mp)
  show ?thesis using two_topics_reachable ne a fresh empty b by simp
qed

subsection \<open>Messages written by subscribe\<close>

lemmas loop_simps = subscribe_loop.simps unsubscribe_loop.simps

declare subscribe_loop.simps [simp del] unsubscribe_loop.simps [simp del]

lemma wire_messages_append:
  "wire_messages (xs @ ys) = wire_messages xs @ wire_messages ys"
  by (induction xs) (simp_all split: event.split)

lemma subscribe_wire_messages:
  assumes "startable s"
  shows "wire_messages (events (snd (subscribePriceFeedUpdates s priceIds cb))) =
     wire_messages (events s) @
     [Subscribe (snd (snd (subscribe_loop (priceFeedCallbacks s)
                             (map removeLeading0xIfExists priceIds) cb [])))
        (verbose s)]"
proof (cases "wsClient s")
  case (Some w)
  then show ?thesis by (simp add: subscribe_running wire_messages_append)
next
  case None
  with assms obtain url where url: "wsEndpoint s = Some url" by (auto simp: startable_def)
  have "wsClient (snd (startWebSocket s)) = Some (wsInstances s)"
    using url by (simp add: startWebSocket_endpoint)
  then show ?thesis using None url
    by (simp add: subscribe_inactive subscribe_running wire_messages_append
        startWebSocket_endpoint)
qed

lemma subscribe_verbose: "verbose (snd (subscribePriceFeedUpdates s priceIds cb)) = verbose s"
proof (cases "wsClient s")
  case (Some w)
  then show ?thesis by (simp add: subscribe_running)
next
  case None
  show ?thesis
  proof (cases "wsEndpoint s")
    case no: None
    then show ?thesis using None by (simp add: subscribe_no_endpoint)
  next
    case (Some url)
    have "wsClient (snd (startWebSocket s)) = Some (wsInstances s)"
      using Some by (simp add: startWebSocket_endpoint)
    then show ?thesis using None Some
      by (simp add: subscribe_inactive subscribe_running startWebSocket_endpoint)
  qed
qed

lemma distinct_singleton_list: "distinct xs \<Longrightarrow> set xs = {b} \<Longrightarrow> xs = [b]"
proof (cases xs)
  case Nil
  assume "set xs = {b}"
  with Nil show ?thesis by simp
next
  case (Cons x rest)
  assume d: "distinct xs" and s: "set xs = {b}"
  from s Cons have "x = b" and "set rest \<subseteq> {b}" by auto
  moreover from d Cons have "x \<notin> set rest" by simp
  ultimately have "rest = []" by (cases rest) auto
  with \<open>x = b\<close> Cons show ?thesis by simp
qed

text \<open>
  Claim C3. A subscribe call that can reach a transport (one is running, or the endpoint
  is defined so that one is started) writes exactly one message: a subscribe message
  whose ids are, each once, the normalized topics of the call that were not keys of the
  registry before it. Subscribing to \<open>[A]\<close> and then to \<open>[A, B]\<close>, with \<open>B\<close> a different
  topic not tracked before, writes \<open>[B]\<close> in the second message.
\<close>

theorem subscribe_sends_only_new_topics:
  assumes "startable s"
  shows
    "(\<exists>new. wire_messages (events (snd (subscribePriceFeedUpdates s priceIds cb))) =
          wire_messages (events s) @ [Subscribe new (verbose s)] \<and>
        distinct new \<and>
        set new = set (map removeLeading0xIfExists priceIds) - set (Map_keys (priceFeedCallbacks s))) \<and>
     (removeLeading0xIfExists A \<noteq> removeLeading0xIfExists B \<and>
      removeLeading0xIfExists B \<notin> set (Map_keys (priceFeedCallbacks s)) \<longrightarrow>
        wire_messages (events (snd (subscribePriceFeedUpdates
            (snd (subscribePriceFeedUpdates s [A] cb)) [A, B] cb'))) =
        wire_messages (events (snd (subscribePriceFeedUpdates s [A] cb))) @
          [Subscribe [removeLeading0xIfExists B] (verbose s)])"
proof (intro conjI impI)
  let ?new = "snd (snd (subscribe_loop (priceFeedCallbacks s)
                          (map removeLeading0xIfExists priceIds) cb []))"
  have "distinct ?new" by (simp add: subscribe_loop_new_distinct)
  moreover have "set ?new =
      set (map removeLeading0xIfExists priceIds) - set (Map_keys (priceFeedCallbacks s))"
    by (simp add: subscribe_loop_new_set)
  ultimately show "\<exists>new. wire_messages (events (snd (subscribePriceFeedUpdates s priceIds cb))) =
          wire_messages (events s) @ [Subscribe new (verbose s)] \<and>
        distinct new \<and>
        set new = set (map removeLeading0xIfExists priceIds) - set (Map_keys (priceFeedCallbacks s))"
    using subscribe_wire_messages [OF assms, of priceIds cb] by blast
next
  assume other: "removeLeading0xIfExists A \<noteq> removeLeading0xIfExists B \<and>
      removeLeading0xIfExists B \<notin> set (Map_keys (priceFeedCallbacks s))"
  let ?s1 = "snd (subscribePriceFeedUpdates s [A] cb)"
  let ?new = "snd (snd (subscribe_loop (priceFeedCallbacks ?s1)
                          (map removeLeading0xIfExists [A, B]) cb' []))"
  have started: "startable ?s1"
    using subscribe_startable [OF assms, of "[A]" cb] by (auto simp: startable_def)
  have keys: "fst ` set (priceFeedCallbacks ?s1) =
      fst ` set (priceFeedCallbacks s) \<union> {removeLeading0xIfExists A}"
    using subscribe_keys [OF assms, of "[A]" cb] by simp
  have "distinct ?new" by (simp add: subscribe_loop_new_distinct)
  moreover have "set ?new = {removeLeading0xIfExists B}"
    using other by (auto simp add: subscribe_loop_new_set keys)
  ultimately have "?new = [removeLeading0xIfExists B]" by (rule distinct_singleton_list)
  then show "wire_messages (events (snd (subscribePriceFeedUpdates ?s1 [A, B] cb'))) =
      wire_messages (events ?s1) @ [Subscribe [removeLeading0xIfExists B] (verbose s)]"
    using subscribe_wire_messages [OF started, of "[A, B]" cb'] by (simp add: subscribe_verbose)
qed

theorem subscribe_sends_only_new_topics_witness:
  "startable fresh_session \<and>
   removeLeading0xIfExists ''0xAB12'' \<noteq> removeLeading0xIfExists ''cd34'' \<and>
   removeLeading0xIfExists ''cd34'' \<notin> set (Map_keys (priceFeedCallbacks fresh_session)) \<and>
   wire_messages (events (snd (subscribePriceFeedUpdates
       (snd (subscribePriceFeedUpdates fresh_session [''0xAB12''] 1)) [''0xAB12'', ''cd34''] 2))) =
     [Subscribe [''ab12''] False, Subscribe [''cd34''] False]"
proof -
  have st: "startable fresh_session"
    by (simp add: startable_def fresh_session_def new_connection_def)
  have other: "removeLeading0xIfExists ''0xAB12'' \<noteq> removeLeading0xIfExists ''cd34'' \<and>
      removeLeading0xIfExists ''cd34'' \<notin> set (Map_keys (priceFeedCallbacks fresh_session))"
    by (simp add: run_defs loop_simps)
  have first: "wire_messages (events (snd (subscribePriceFeedUpdates fresh_session [''0xAB12''] 1))) =
      [Subscribe [''ab12''] False]"
    by (simp add: run_defs loop_simps)
  have "wire_messages (events (snd (subscribePriceFeedUpdates
       (snd (subscribePriceFeedUpdates fresh_session [''0xAB12''] 1)) [''0xAB12'', ''cd34''] 2))) =
     wire_messages (events (snd (subscribePriceFeedUpdates fresh_session [''0xAB12''] 1))) @
       [Subscribe [removeLeading0xIfExists ''cd34''] (verbose fresh_session)]"
    using subscribe_sends_only_new_topics [OF st, THEN conjunct2] other by (rule mp)
  then have "wire_messages (events (snd (subscribePriceFeedUpdates
       (snd (subscribePriceFeedUpdates fresh_session [''0xAB12''] 1)) [''0xAB12'', ''cd34''] 2))) =
     [Subscribe [''ab12''] False, Subscribe [''cd34''] False]"
    unfolding first by (simp add: run_defs loop_simps)
  with st other show ?thesis by simp
qed

subsection \<open>The registry invariant\<close>

lemma registry_invariant_map_of:
  "registry_invariant m \<longleftrightarrow> (\<forall>k cbs. Map_get m k = Some cbs \<longrightarrow> cbs \<noteq> [])"
proof
  assume inv: "registry_invariant m"
  show "\<forall>k cbs. Map_get m k = Some cbs \<longrightarrow> cbs \<noteq> []"
  proof (intro allI impI)
    fix k cbs
    assume get: "Map_get m k = Some cbs"
    then have "k \<in> set (Map_keys m)" by (metis map_of_eq_None_iff option.distinct(1) set_map)
    with inv have "subscribers m k \<noteq> []" by (auto simp add: registry_invariant_def)
    with get show "cbs \<noteq> []" by (simp add: subscribers_def)
  qed
next
  assume vals: "\<forall>k cbs. Map_get m k = Some cbs \<longrightarrow> cbs \<noteq> []"
  show "registry_invariant m"
    unfolding registry_invariant_def
  proof
    fix k
    assume "k \<in> set (Map_keys m)"
    then obtain cbs where "Map_get m k = Some cbs"
      by (metis map_of_eq_None_iff not_None_eq set_map)
    with vals show "subscribers m k \<noteq> []" by (simp add: subscribers_def)
  qed
qed

lemma registry_invariant_iff:
  "registry_invariant m \<longleftrightarrow> (\<forall>k. Map_has m k \<longleftrightarrow> subscribers m k \<noteq> [])"
  unfolding registry_invariant_map_of
  by (auto simp add: subscribers_def split: option.splits)

lemma registry_invariant_subscribe_loop:
  assumes "registry_invariant m"
  shows "registry_invariant (fst (snd (subscribe_loop m is cb new)))"
  using assms unfolding registry_invariant_map_of
  by (auto simp add: subscribe_loop_map_of Set_add_nonempty split: if_splits)

lemma registry_invariant_unsubscribe_loop:
  assumes "registry_invariant m"
  shows "registry_invariant (fst (snd (unsubscribe_loop m is cbo removed)))"
  using assms unfolding registry_invariant_map_of
  by (auto simp add: unsubscribe_loop_map_of split: if_splits option.splits)

lemma registry_invariant_empty: "registry_invariant []"
  by (simp add: registry_invariant_def)

lemma registry_invariant_subscribed:
  assumes inv: "registry_invariant (priceFeedCallbacks s)"
  shows "registry_invariant (priceFeedCallbacks (snd (subscribePriceFeedUpdates s priceIds cb)))"
proof (cases "wsClient s")
  case (Some w)
  then show ?thesis using inv by (simp add: subscribe_running registry_invariant_subscribe_loop)
next
  case None
  show ?thesis
  proof (cases "wsEndpoint s")
    case no: None
    then show ?thesis using inv None by (simp add: subscribe_no_endpoint)
  next
    case (Some url)
    have "wsClient (snd (startWebSocket s)) = Some (wsInstances s)"
      and "priceFeedCallbacks (snd (startWebSocket s)) = priceFeedCallbacks s"
      using Some by (simp_all add: startWebSocket_endpoint)
    then show ?thesis using None Some inv
      by (simp add: subscribe_inactive subscribe_running registry_invariant_subscribe_loop)
  qed
qed

lemma registry_invariant_unsubscribed:
  assumes inv: "registry_invariant (priceFeedCallbacks s)"
  shows "registry_invariant (priceFeedCallbacks (snd (unsubscribePriceFeedUpdates s priceIds cbo)))"
proof (cases "wsClient s")
  case (Some w)
  then show ?thesis using inv
    by (simp add: unsubscribe_running registry_invariant_unsubscribe_loop registry_invariant_empty)
next
  case None
  show ?thesis
  proof (cases "wsEndpoint s")
    case no: None
    then show ?thesis using inv None by (simp add: unsubscribe_no_endpoint)
  next
    case (Some url)
    have "wsClient (snd (startWebSocket s)) = Some (wsInstances s)"
      and "priceFeedCallbacks (snd (startWebSocket s)) = priceFeedCallbacks s"
      using Some by (simp_all add: startWebSocket_endpoint)
    then show ?thesis using None Some inv
      by (simp add: unsubscribe_inactive unsubscribe_running registry_invariant_unsubscribe_loop
          registry_invariant_empty)
  qed
qed

lemma registry_invariant_performed:
  assumes "registry_invariant (priceFeedCallbacks s)"
  shows "registry_invariant (priceFeedCallbacks (perform c s))"
proof (cases c)
  case (CallSubscribe priceIds cb)
  then show ?thesis using assms by (simp add: registry_invariant_subscribed)
next
  case (CallUnsubscribe priceIds cbo)
  then show ?thesis using assms by (simp add: registry_invariant_unsubscribed)
next
  case CallCloseWebSocket
  then show ?thesis
    by (cases "wsClient s") (simp_all add: closeWebSocket_def emit_def registry_invariant_empty)
next
  case CallStartWebSocket
  then show ?thesis using assms
    by (cases "wsEndpoint s") (simp_all add: startWebSocket_endpoint startWebSocket_no_endpoint)
qed

lemma registry_invariant_run_calls:
  "registry_invariant (priceFeedCallbacks s) \<Longrightarrow>
     registry_invariant (priceFeedCallbacks (fst (run_calls cs i (s, pending, attached))))"
  by (induction cs arbitrary: s pending attached)
    (simp_all add: Let_def registry_invariant_performed)

lemma registry_invariant_invoke_callbacks:
  "registry_invariant (priceFeedCallbacks s) \<Longrightarrow>
     registry_invariant
       (priceFeedCallbacks (snd (invoke_callbacks fuel run i f pending attached s)))"
proof (induction fuel run i f pending attached s rule: invoke_callbacks.induct)
  case (1 fuel run i priceFeed attached s)
  then show ?case by simp
next
  case (2 run i priceFeed cb pending attached s)
  then show ?case by simp
next
  case (3 fuel run i f cb pending attached s)
  let ?st = "run_calls (fst (run cb f)) i (emit (Invoke cb f) s, pending, attached)"
  have "registry_invariant (priceFeedCallbacks (emit (Invoke cb f) s))"
    using "3.prems" by (simp add: emit_def)
  then have inv: "registry_invariant (priceFeedCallbacks (fst ?st))"
    by (rule registry_invariant_run_calls)
  have eq1: "(fst ?st, snd ?st) = ?st" and eq2: "(fst (snd ?st), snd (snd ?st)) = snd ?st"
    by simp_all
  show ?case
  proof (cases "snd (run cb f)")
    case None
    from "3.IH" [OF eq1 eq2 None inv] show ?thesis
      using None by (simp only: invoke_callbacks_step Let_def option.case)
  next
    case (Some e)
    then show ?thesis using inv by (simp only: invoke_callbacks_step Let_def option.case snd_conv)
  qed
qed

lemma registry_invariant_received:
  assumes "registry_invariant (priceFeedCallbacks s)"
  shows "registry_invariant (priceFeedCallbacks (snd (onMessage fuel run s data)))"
  using assms
  by (simp add: onMessage_def emit_def registry_invariant_invoke_callbacks
      split: frame.split sum.split option.split)

lemma unsubscribe_last_subscriber:
  assumes ws: "wsClient s = Some w"
    and only: "subscribers (priceFeedCallbacks s) (removeLeading0xIfExists t) = [c]"
    and mem: "t \<in> set priceIds"
  shows "\<not> Map_has (priceFeedCallbacks (snd (unsubscribePriceFeedUpdates s priceIds (Some c))))
           (removeLeading0xIfExists t)"
proof -
  from only have get: "Map_get (priceFeedCallbacks s) (removeLeading0xIfExists t) = Some [c]"
    by (simp add: subscribers_def split: option.splits)
  have "Map_get (fst (snd (unsubscribe_loop (priceFeedCallbacks s)
          (map removeLeading0xIfExists priceIds) (Some c) []))) (removeLeading0xIfExists t) = None"
    using mem get by (simp add: unsubscribe_loop_map_of remaining_def Set_delete_def)
  then show ?thesis by (simp add: unsubscribe_running [OF ws])
qed

text \<open>
  Claim C4. The registry invariant says that every key of the registry has a non-empty
  subscriber set; with it, a topic is a key exactly when its subscriber set is non-empty.
  It holds for a new connection and is kept by subscribe, unsubscribe, the message handler
  (with whatever its callbacks call, and as far as its loop gets) and close. When a topic's only subscriber is removed by an unsubscribe call on a running
  session, the topic is no longer a key.
\<close>

theorem registry_invariant_preserved:
  assumes "registry_invariant (priceFeedCallbacks s)"
  shows
    "registry_invariant (priceFeedCallbacks (new_connection url v)) \<and>
     registry_invariant (priceFeedCallbacks (snd (subscribePriceFeedUpdates s priceIds cb))) \<and>
     registry_invariant (priceFeedCallbacks (snd (unsubscribePriceFeedUpdates s priceIds cbo))) \<and>
     registry_invariant (priceFeedCallbacks (snd (onMessage fuel run s data))) \<and>
     registry_invariant (priceFeedCallbacks (closeWebSocket s)) \<and>
     (\<forall>k. Map_has (priceFeedCallbacks s) k \<longleftrightarrow> subscribers (priceFeedCallbacks s) k \<noteq> []) \<and>
     (wsClient s \<noteq> None \<and> subscribers (priceFeedCallbacks s) (removeLeading0xIfExists t) = [c] \<and>
      t \<in> set priceIds \<longrightarrow>
        \<not> Map_has (priceFeedCallbacks (snd (unsubscribePriceFeedUpdates s priceIds (Some c))))
            (removeLeading0xIfExists t))"
proof (intro conjI impI)
  show "registry_invariant (priceFeedCallbacks (new_connection url v))"
    by (simp add: new_connection_def registry_invariant_empty)
  show "registry_invariant (priceFeedCallbacks (snd (subscribePriceFeedUpdates s priceIds cb)))"
    using assms by (rule registry_invariant_subscribed)
  show "registry_invariant (priceFeedCallbacks (snd (unsubscribePriceFeedUpdates s priceIds cbo)))"
    using assms by (rule registry_invariant_unsubscribed)
  show "registry_invariant (priceFeedCallbacks (snd (onMessage fuel run s data)))"
    using assms by (rule registry_invariant_received)
  show "registry_invariant (priceFeedCallbacks (closeWebSocket s))"
    by (cases "wsClient s") (simp_all add: closeWebSocket_def emit_def registry_invariant_empty)
  show "\<forall>k. Map_has (priceFeedCallbacks s) k \<longleftrightarrow> subscribers (priceFeedCallbacks s) k \<noteq> []"
    using assms registry_invariant_iff by blast
next
  assume "wsClient s \<noteq> None \<and> subscribers (priceFeedCallbacks s) (removeLeading0xIfExists t) = [c] \<and>
      t \<in> set priceIds"
  then obtain w where "wsClient s = Some w"
    and "subscribers (priceFeedCallbacks s) (removeLeading0xIfExists t) = [c]"
    and "t \<in> set priceIds"
    by auto
  then show "\<not> Map_has (priceFeedCallbacks (snd (unsubscribePriceFeedUpdates s priceIds (Some c))))
      (removeLeading0xIfExists t)"
    by (rule unsubscribe_last_subscriber)
qed

theorem registry_invariant_preserved_witness:
  "registry_invariant (priceFeedCallbacks two_topics) \<and>
   wsClient two_topics \<noteq> None \<and>
   subscribers (priceFeedCallbacks two_topics) (removeLeading0xIfExists ''0xCD34'') = [1] \<and>
   ''0xCD34'' \<in> set [''0xCD34''] \<and>
   registry_invariant
     (priceFeedCallbacks (snd (unsubscribePriceFeedUpdates two_topics [''0xCD34''] (Some 1)))) \<and>
   \<not> Map_has (priceFeedCallbacks (snd (unsubscribePriceFeedUpdates two_topics [''0xCD34''] (Some 1))))
       (removeLeading0xIfExists ''0xCD34'') \<and>
   Map_has (priceFeedCallbacks two_topics) ''ab12'' \<and>
   subscribers (priceFeedCallbacks two_topics) ''ab12'' \<noteq> []"
proof -
  have inv: "registry_invariant (priceFeedCallbacks two_topics)"
    by (simp add: two_topics_eq registry_invariant_def subscribers_def)
  have pre: "wsClient two_topics \<noteq> None \<and>
      subscribers (priceFeedCallbacks two_topics) (removeLeading0xIfExists ''0xCD34'') = [1] \<and>
      ''0xCD34'' \<in> set [''0xCD34'']"
    by (simp add: two_topics_eq subscribers_def run_defs)
  note inst = registry_invariant_preserved [OF inv,
      where priceIds = "[''0xCD34'']" and cbo = "Some 1" and t = "''0xCD34''" and c = 1]
  have a: "registry_invariant
     (priceFeedCallbacks (snd (unsubscribePriceFeedUpdates two_topics [''0xCD34''] (Some 1))))"
    using inst by (rule conjunct2 [THEN conjunct2, THEN conjunct1])
  have b: "\<not> Map_has (priceFeedCallbacks (snd (unsubscribePriceFeedUpdates two_topics [''0xCD34''] (Some 1))))
       (removeLeading0xIfExists ''0xCD34'')"
    using inst pre by blast
  have c: "Map_has (priceFeedCallbacks two_topics) ''ab12''"
    by (simp add: two_topics_eq)
  have d: "subscribers (priceFeedCallbacks two_topics) ''ab12'' \<noteq> []"
    using inst c by blast
  show ?thesis using inv pre a b c d by simp
qed

subsection \<open>Messages written by unsubscribe\<close>

lemma unsubscribe_wire_messages:
  assumes "wsClient s = Some w"
  shows "wire_messages (events (snd (unsubscribePriceFeedUpdates s priceIds cbo))) =
     wire_messages (events s) @
     [Unsubscribe (snd (snd (unsubscribe_loop (priceFeedCallbacks s)
                               (map removeLeading0xIfExists priceIds) cbo [])))]"
  by (simp add: unsubscribe_running [OF assms] wire_messages_append)

lemma unsubscribe_registry_map_of:
  assumes "wsClient s = Some w"
  shows "Map_get (priceFeedCallbacks (snd (unsubscribePriceFeedUpdates s priceIds cbo))) k =
     Map_get (fst (snd (unsubscribe_loop (priceFeedCallbacks s)
                          (map removeLeading0xIfExists priceIds) cbo []))) k"
  by (simp add: unsubscribe_running [OF assms])

lemma unsubscribe_ws_kept:
  assumes "wsClient s = Some w"
    and "Map_has (priceFeedCallbacks (snd (unsubscribePriceFeedUpdates s priceIds cbo))) k"
  shows "wsClient (snd (unsubscribePriceFeedUpdates s priceIds cbo)) = Some w"
  using assms by (auto simp add: unsubscribe_running [OF assms(1)] split: if_splits)

text \<open>
  Claim C5. Let topic \<open>T\<close> have exactly the two distinct callbacks \<open>c1\<close> and \<open>c2\<close> in a
  reachable state. An unsubscribe call for \<open>c1\<close> whose topics include \<open>T\<close> leaves \<open>T\<close> a key
  of the registry and writes one unsubscribe message whose ids do not contain \<open>T\<close>; a
  following unsubscribe call for \<open>c2\<close> whose topics include \<open>T\<close> removes the key and writes
  one unsubscribe message whose ids contain \<open>T\<close>.
\<close>

theorem partial_unsubscribe_keeps_topic:
  assumes reach: "reachable s"
    and get: "Map_get (priceFeedCallbacks s) T = Some cbs"
    and two: "set cbs = {c1, c2}" "c1 \<noteq> c2"
    and in1: "T \<in> set (map removeLeading0xIfExists ids1)"
    and in2: "T \<in> set (map removeLeading0xIfExists ids2)"
  shows
    "(let s1 = snd (unsubscribePriceFeedUpdates s ids1 (Some c1));
          s2 = snd (unsubscribePriceFeedUpdates s1 ids2 (Some c2))
      in Map_has (priceFeedCallbacks s1) T \<and>
         (\<exists>r1. wire_messages (events s1) = wire_messages (events s) @ [Unsubscribe r1] \<and>
                T \<notin> set r1) \<and>
         \<not> Map_has (priceFeedCallbacks s2) T \<and>
         (\<exists>r2. wire_messages (events s2) = wire_messages (events s1) @ [Unsubscribe r2] \<and>
                T \<in> set r2))"
proof -
  let ?s1 = "snd (unsubscribePriceFeedUpdates s ids1 (Some c1))"
  let ?s2 = "snd (unsubscribePriceFeedUpdates ?s1 ids2 (Some c2))"
  let ?r1 = "snd (snd (unsubscribe_loop (priceFeedCallbacks s)
                         (map removeLeading0xIfExists ids1) (Some c1) []))"
  let ?r2 = "snd (snd (unsubscribe_loop (priceFeedCallbacks ?s1)
                         (map removeLeading0xIfExists ids2) (Some c2) []))"
  from get have "priceFeedCallbacks s \<noteq> []" by auto
  with reachable_invariant [OF reach] obtain w where w: "wsClient s = Some w"
    by (auto simp: session_invariant_def)
  have left: "set (Set_delete cbs c1) = {c2}"
    using two by (auto simp: set_Set_delete)
  then have ne: "Set_delete cbs c1 \<noteq> []" by auto
  have get1: "Map_get (priceFeedCallbacks ?s1) T = Some (Set_delete cbs c1)"
    using in1 get ne
    by (simp add: unsubscribe_registry_map_of [OF w] unsubscribe_loop_map_of remaining_def)
  then have has1: "Map_has (priceFeedCallbacks ?s1) T" by simp
  have w1: "wsClient ?s1 = Some w" using w has1 by (rule unsubscribe_ws_kept)
  have not1: "T \<notin> set ?r1"
    using get ne by (simp add: unsubscribe_loop_removed_set remaining_def)
  have "set (Set_delete (Set_delete cbs c1) c2) = {}"
    using left by (simp add: set_Set_delete)
  then have gone: "Set_delete (Set_delete cbs c1) c2 = []" by simp
  have get2: "\<not> Map_has (priceFeedCallbacks ?s2) T"
    using in2 get1 gone
    by (simp add: unsubscribe_registry_map_of [OF w1] unsubscribe_loop_map_of remaining_def)
  have in_r2: "T \<in> set ?r2"
    using in2 get1 gone by (simp add: unsubscribe_loop_removed_set remaining_def)
  have m1: "wire_messages (events ?s1) = wire_messages (events s) @ [Unsubscribe ?r1]"
    using w by (rule unsubscribe_wire_messages)
  have m2: "wire_messages (events ?s2) = wire_messages (events ?s1) @ [Unsubscribe ?r2]"
    using w1 by (rule unsubscribe_wire_messages)
  show ?thesis
    unfolding Let_def using has1 not1 get2 in_r2 m1 m2 by blast
qed

theorem partial_unsubscribe_keeps_topic_witness:
  "reachable two_subscribers \<and>
   Map_get (priceFeedCallbacks two_subscribers) ''ab12'' = Some [1, 2] \<and>
   set [1, 2] = {1, 2 :: nat} \<and> (1 :: nat) \<noteq> 2 \<and>
   ''ab12'' \<in> set (map removeLeading0xIfExists [''0xab12'']) \<and>
   Map_has (priceFeedCallbacks
      (snd (unsubscribePriceFeedUpdates two_subscribers [''0xab12''] (Some 1)))) ''ab12'' \<and>
   \<not> Map_has (priceFeedCallbacks
      (snd (unsubscribePriceFeedUpdates
         (snd (unsubscribePriceFeedUpdates two_subscribers [''0xab12''] (Some 1)))
         [''0xab12''] (Some 2)))) ''ab12'' \<and>
   wire_messages (events
      (snd (unsubscribePriceFeedUpdates
         (snd (unsubscribePriceFeedUpdates two_subscribers [''0xab12''] (Some 1)))
         [''0xab12''] (Some 2)))) =
     [Subscribe [''ab12''] False, Subscribe [] False, Unsubscribe [], Unsubscribe [''ab12'']]"
proof -
  have get: "Map_get (priceFeedCallbacks two_subscribers) ''ab12'' = Some [1, 2]"
    by (simp add: two_subscribers_eq)
  have two: "set [1, 2] = {1, 2 :: nat}" "(1 :: nat) \<noteq> 2" by simp_all
  have mem: "''ab12'' \<in> set (map removeLeading0xIfExists [''0xab12''])"
    by (simp add: run_defs)
  note inst = partial_unsubscribe_keeps_topic
    [OF two_subscribers_reachable get two mem mem, unfolded Let_def]
  have msgs: "wire_messages (events
      (snd (unsubscribePriceFeedUpdates
         (snd (unsubscribePriceFeedUpdates two_subscribers [''0xab12''] (Some 1)))
         [''0xab12''] (Some 2)))) =
     [Subscribe [''ab12''] False, Subscribe [] False, Unsubscribe [], Unsubscribe [''ab12'']]"
    by (simp add: two_subscribers_eq run_defs loop_simps)
  show ?thesis
    using two_subscribers_reachable get two mem inst msgs by blast
qed

subsection \<open>Teardown and restart of the transport\<close>

lemma unsubscribe_loop_empty: "unsubscribe_loop [] is cbo removed = (Returned, [], removed)"
  by (induction "is") (simp_all add: loop_simps)

lemma subscribe_after_teardown:
  assumes none: "wsClient s = None" and url: "wsEndpoint s = Some url"
  shows "wsClient (snd (subscribePriceFeedUpdates s priceIds cb)) = Some (wsInstances s) \<and>
     events (snd (subscribePriceFeedUpdates s priceIds cb)) =
       events s @
       [WsStart (wsInstances s),
        WsSend (wsInstances s)
          (Subscribe (snd (snd (subscribe_loop (priceFeedCallbacks s)
                                  (map removeLeading0xIfExists priceIds) cb [])))
             (verbose s))]"
proof -
  have "wsClient (snd (startWebSocket s)) = Some (wsInstances s)"
    using url by (simp add: startWebSocket_endpoint)
  then show ?thesis
    using none url
    by (simp add: subscribe_inactive subscribe_running startWebSocket_endpoint)
qed

text \<open>
  Claim C6. In a reachable state with a running transport \<open>w\<close>, an unsubscribe call that
  leaves the registry empty writes its unsubscribe message to \<open>w\<close>, closes \<open>w\<close> and
  discards it (\<open>wsClient\<close> is undefined afterwards). A subscribe call after that constructs
  and starts a transport with a reference that differs from \<open>w\<close> and that no earlier event
  mentions, and writes its subscribe message to it.
\<close>

theorem teardown_then_new_transport:
  assumes reach: "reachable s"
    and ws: "wsClient s = Some w"
    and emptied: "priceFeedCallbacks (snd (unsubscribePriceFeedUpdates s priceIds cbo)) = []"
  shows
    "(let s1 = snd (unsubscribePriceFeedUpdates s priceIds cbo);
          s2 = snd (subscribePriceFeedUpdates s1 priceIds' cb)
      in wsClient s1 = None \<and>
         (\<exists>removed. events s1 = events s @ [WsSend w (Unsubscribe removed), WsClose w]) \<and>
         (\<exists>n. wsClient s2 = Some n \<and> n \<noteq> w \<and>
              (\<forall>e \<in> set (events s1). event_ws e \<noteq> Some n) \<and>
              (\<exists>new. events s2 = events s1 @ [WsStart n, WsSend n (Subscribe new (verbose s))])))"
proof -
  let ?s1 = "snd (unsubscribePriceFeedUpdates s priceIds cbo)"
  let ?s2 = "snd (subscribePriceFeedUpdates ?s1 priceIds' cb)"
  let ?m = "fst (snd (unsubscribe_loop (priceFeedCallbacks s)
                        (map removeLeading0xIfExists priceIds) cbo []))"
  let ?removed = "snd (snd (unsubscribe_loop (priceFeedCallbacks s)
                              (map removeLeading0xIfExists priceIds) cbo []))"
  have inv: "session_invariant s" using reach by (rule reachable_invariant)
  have m: "?m = []"
    using emptied by (simp add: unsubscribe_running [OF ws] split: if_splits)
  have s1: "?s1 = s\<lparr>priceFeedCallbacks := [], wsClient := None,
      events := events s @ [WsSend w (Unsubscribe ?removed), WsClose w]\<rparr>"
    using m by (simp add: unsubscribe_running [OF ws])
  have none1: "wsClient ?s1 = None" by (simp add: s1)
  have ev1: "events ?s1 = events s @ [WsSend w (Unsubscribe ?removed), WsClose w]"
    by (simp add: s1)
  from inv ws obtain url where "wsEndpoint s = Some url"
    by (auto simp: session_invariant_def)
  then have url1: "wsEndpoint ?s1 = Some url" by (simp add: s1)
  have count1: "wsInstances ?s1 = wsInstances s" and verbose1: "verbose ?s1 = verbose s"
    by (simp_all add: s1)
  note sub = subscribe_after_teardown [OF none1 url1, of priceIds' cb]
  have lt: "w < wsInstances s" using inv ws by (simp add: session_invariant_def)
  have "session_invariant ?s1"
    using reach by (intro reachable_invariant reachable.unsubscribed)
  then have unused: "\<forall>e \<in> set (events ?s1). event_ws e \<noteq> Some (wsInstances s)"
    unfolding session_invariant_def count1 by blast
  have "wsClient ?s2 = Some (wsInstances s) \<and> wsInstances s \<noteq> w \<and>
      (\<forall>e \<in> set (events ?s1). event_ws e \<noteq> Some (wsInstances s)) \<and>
      (\<exists>new. events ?s2 =
         events ?s1 @ [WsStart (wsInstances s), WsSend (wsInstances s) (Subscribe new (verbose s))])"
    using sub lt unused unfolding count1 verbose1 by blast
  then show ?thesis
    unfolding Let_def using none1 ev1 by blast
qed

theorem teardown_then_new_transport_witness:
  "reachable two_topics \<and> wsClient two_topics = Some 0 \<and>
   priceFeedCallbacks (snd (unsubscribePriceFeedUpdates two_topics [''ab12'', ''cd34''] None)) = [] \<and>
   wsClient (snd (unsubscribePriceFeedUpdates two_topics [''ab12'', ''cd34''] None)) = None \<and>
   events (snd (unsubscribePriceFeedUpdates two_topics [''ab12'', ''cd34''] None)) =
     events two_topics @ [WsSend 0 (Unsubscribe [''ab12'', ''cd34'']), WsClose 0] \<and>
   wsClient (snd (subscribePriceFeedUpdates
      (snd (unsubscribePriceFeedUpdates two_topics [''ab12'', ''cd34''] None)) [''ab12''] 5)) = Some 1"
proof -
  have ws: "wsClient two_topics = Some 0" by (simp add: two_topics_eq)
  have emptied:
    "priceFeedCallbacks (snd (unsubscribePriceFeedUpdates two_topics [''ab12'', ''cd34''] None)) = []"
    by (simp add: two_topics_eq run_defs loop_simps)
  note inst = teardown_then_new_transport
    [OF two_topics_reachable ws emptied, of "[''ab12'']" 5, unfolded Let_def]
  have a: "wsClient (snd (unsubscribePriceFeedUpdates two_topics [''ab12'', ''cd34''] None)) = None"
    using inst by (rule conjunct1)
  have b: "events (snd (unsubscribePriceFeedUpdates two_topics [''ab12'', ''cd34''] None)) =
     events two_topics @ [WsSend 0 (Unsubscribe [''ab12'', ''cd34'']), WsClose 0]"
    by (simp add: two_topics_eq run_defs loop_simps)
  have c: "wsClient (snd (subscribePriceFeedUpdates
      (snd (unsubscribePriceFeedUpdates two_topics [''ab12'', ''cd34''] None)) [''ab12''] 5)) = Some 1"
    by (simp add: two_topics_eq run_defs loop_simps)
  show ?thesis using two_topics_reachable ws emptied a b c by simp
qed

text \<open>
  Claim C10. In a reachable state without a transport and with a defined endpoint, an
  unsubscribe call constructs and starts a transport, writes an unsubscribe message with
  no ids to it (the registry of such a state is empty), and closes and discards it at
  once: the call returns with \<open>wsClient\<close> undefined again and one more transport
  constructed.
\<close>

theorem unsubscribe_inactive_starts_and_closes:
  assumes reach: "reachable s"
    and none: "wsClient s = None"
    and url: "wsEndpoint s = Some url"
  shows
    "unsubscribePriceFeedUpdates s priceIds cbo =
       (Returned,
        s\<lparr>priceFeedCallbacks := [], wsClient := None, wsInstances := Suc (wsInstances s),
          events := events s @
            [WsStart (wsInstances s), WsSend (wsInstances s) (Unsubscribe []),
             WsClose (wsInstances s)]\<rparr>)"
proof -
  have empty: "priceFeedCallbacks s = []"
    using reachable_invariant [OF reach] none by (auto simp: session_invariant_def)
  let ?s0 = "snd (startWebSocket s)"
  have s0: "?s0 = s\<lparr>wsClient := Some (wsInstances s), wsInstances := Suc (wsInstances s),
      events := events s @ [WsStart (wsInstances s)]\<rparr>"
    using url by (simp add: startWebSocket_endpoint)
  then have w0: "wsClient ?s0 = Some (wsInstances s)" by simp
  have "unsubscribePriceFeedUpdates s priceIds cbo = unsubscribePriceFeedUpdates ?s0 priceIds cbo"
    using none url by (rule unsubscribe_inactive)
  also have "\<dots> =
      (Returned,
       s\<lparr>priceFeedCallbacks := [], wsClient := None, wsInstances := Suc (wsInstances s),
         events := events s @
           [WsStart (wsInstances s), WsSend (wsInstances s) (Unsubscribe []),
            WsClose (wsInstances s)]\<rparr>)"
    unfolding unsubscribe_running [OF w0]
    by (simp add: s0 empty unsubscribe_loop_empty)
  finally show ?thesis .
qed

theorem unsubscribe_inactive_starts_and_closes_witness:
  "reachable fresh_session \<and> wsClient fresh_session = None \<and>
   wsEndpoint fresh_session = Some ''wss://host/ws'' \<and>
   unsubscribePriceFeedUpdates fresh_session [''ab12''] None =
     (Returned,
      \<lparr>priceFeedCallbacks = [], wsClient = None, wsEndpoint = Some ''wss://host/ws'',
       verbose = False, wsInstances = 1,
       events = [WsStart 0, WsSend 0 (Unsubscribe []), WsClose 0]\<rparr>)"
proof -
  have fresh: "reachable fresh_session"
    unfolding fresh_session_def by (rule reachable.created)
  have none: "wsClient fresh_session = None"
    and url: "wsEndpoint fresh_session = Some ''wss://host/ws''"
    by (simp_all add: fresh_session_def new_connection_def)
  have "unsubscribePriceFeedUpdates fresh_session [''ab12''] None =
     (Returned,
      \<lparr>priceFeedCallbacks = [], wsClient = None, wsEndpoint = Some ''wss://host/ws'',
       verbose = False, wsInstances = 1,
       events = [WsStart 0, WsSend 0 (Unsubscribe []), WsClose 0]\<rparr>)"
    unfolding unsubscribe_inactive_starts_and_closes [OF fresh none url]
    by (simp add: fresh_session_def new_connection_def)
  with fresh none url show ?thesis by simp
qed

subsection \<open>Registering a callback twice\<close>

lemma subscribe_registry_map_of:
  assumes "startable s"
  shows "Map_get (priceFeedCallbacks (snd (subscribePriceFeedUpdates s priceIds cb))) k =
     (if k \<in> set (map removeLeading0xIfExists priceIds)
      then Some (Set_add (subscribers (priceFeedCallbacks s) k) cb)
      else Map_get (priceFeedCallbacks s) k)"
proof (cases "wsClient s")
  case (Some w)
  then show ?thesis by (simp add: subscribe_running subscribe_loop_map_of)
next
  case None
  with assms obtain url where url: "wsEndpoint s = Some url" by (auto simp: startable_def)
  have "wsClient (snd (startWebSocket s)) = Some (wsInstances s)"
    and "priceFeedCallbacks (snd (startWebSocket s)) = priceFeedCallbacks s"
    using url by (simp_all add: startWebSocket_endpoint)
  then show ?thesis using None url
    by (simp add: subscribe_inactive subscribe_running subscribe_loop_map_of)
qed

lemma subscribe_loop_registered:
  "\<forall>i \<in> set is. \<exists>cbs. Map_get m i = Some cbs \<and> cb \<in> set cbs \<Longrightarrow>
     fst (snd (subscribe_loop m is cb new)) = m"
proof (induction "is" arbitrary: new)
  case Nil
  show ?case by (simp add: loop_simps)
next
  case (Cons i rest)
  then obtain cbs where get: "Map_get m i = Some cbs" and mem: "cb \<in> set cbs" by auto
  then have "Map_set m i (Set_add cbs cb) = m"
    by (simp add: Set_add_def update_triv)
  then show ?case using get Cons by (simp add: subscribe_loop_present)
qed

lemma count_list_once: "distinct xs \<Longrightarrow> x \<in> set xs \<Longrightarrow> count_list xs x = 1"
  by (induction xs) auto

lemma length_Set_add: "length (Set_add xs x) \<le> Suc (length xs)"
  by (simp add: Set_add_def)

text \<open>
  A callback that is in the walked set once is invoked once when the others make no
  calls and return, and it makes no calls itself.
\<close>

lemma called_once:
  assumes d: "distinct cbs" and mem: "cb \<in> set cbs"
    and others: "\<forall>c \<in> set cbs. c \<noteq> cb \<longrightarrow> run c f = ([], None)"
    and own: "fst (run cb f) = []"
    and fuel: "length cbs \<le> fuel"
  shows "fst (invoke_callbacks fuel run i f cbs attached s) \<noteq> None \<and>
     (\<exists>called.
        invoked (events (snd (invoke_callbacks fuel run i f cbs attached s))) =
          invoked (events s) @ called \<and>
        count_list called cb = 1)"
proof (cases "snd (run cb f)")
  case None
  with own have "run cb f = ([], None)" by (simp add: prod_eq_iff)
  with others have "\<forall>c \<in> set cbs. run c f = ([], None)" by auto
  then have "invoke_callbacks fuel run i f cbs attached s =
      (Some Returned, s\<lparr>events := events s @ map (\<lambda>c. Invoke c f) cbs\<rparr>)"
    using fuel by (rule invoke_callbacks_all_plain)
  then show ?thesis
    using d mem by (simp add: invoked_append invoked_Invoke count_list_once)
next
  case (Some e)
  with own have cb: "run cb f = ([], Some e)" by (simp add: prod_eq_iff)
  from mem obtain before after where split: "cbs = before @ cb # after"
    by (auto dest: split_list)
  with d have notin: "cb \<notin> set before" by simp
  with others split have plain: "\<forall>b \<in> set before. run b f = ([], None)" by auto
  have short: "length before < fuel" using fuel split by simp
  have "invoke_callbacks fuel run i f cbs attached s =
      (Some (Threw e),
       fst (run_calls [] i
              (emit (Invoke cb f) (s\<lparr>events := events s @ map (\<lambda>c. Invoke c f) before\<rparr>),
               after, attached)))"
    unfolding split using plain cb short by (rule invoke_callbacks_throw_after_plain)
  then show ?thesis
    using notin by (simp add: emit_def invoked_append invoked_Invoke)
qed

text \<open>
  Claim C8, as amended. In a reachable state whose transport can be reached, subscribing
  the same callback to the same topics twice gives the registry that subscribing once
  gives, and the subscriber set of each of the topics holds the callback once. An update
  frame for such a topic then invokes the callback exactly once, whether or not it
  raises, provided that no other callback of the topic raises on that frame and that the
  callbacks of the topic make no calls into the connection while the frame is dispatched.
\<close>

theorem duplicate_registration_is_idempotent:
  assumes reach: "reachable s"
    and st: "startable s"
    and mem: "feed_id f \<in> set (map removeLeading0xIfExists priceIds)"
    and others: "\<forall>c \<in> set (subscribers (priceFeedCallbacks s) (feed_id f)).
                   c \<noteq> cb \<longrightarrow> run c f = ([], None)"
    and own: "fst (run cb f) = []"
    and fuel: "length (subscribers (priceFeedCallbacks s) (feed_id f)) < fuel"
  shows
    "(let s1 = snd (subscribePriceFeedUpdates s priceIds cb);
          s2 = snd (subscribePriceFeedUpdates s1 priceIds cb)
      in priceFeedCallbacks s2 = priceFeedCallbacks s1 \<and>
         count_list (subscribers (priceFeedCallbacks s2) (feed_id f)) cb = 1 \<and>
         fst (onMessage fuel run s2 (PriceUpdate (Inr f))) \<noteq> None \<and>
         (\<exists>called.
            invoked (events (snd (onMessage fuel run s2 (PriceUpdate (Inr f))))) =
              invoked (events s2) @ called \<and>
            count_list called cb = 1))"
proof -
  let ?s1 = "snd (subscribePriceFeedUpdates s priceIds cb)"
  let ?s2 = "snd (subscribePriceFeedUpdates ?s1 priceIds cb)"
  let ?old = "subscribers (priceFeedCallbacks s) (feed_id f)"
  obtain w where w1: "wsClient ?s1 = Some w"
    using subscribe_startable [OF st] by blast
  have "\<forall>i \<in> set (map removeLeading0xIfExists priceIds).
      \<exists>cbs. Map_get (priceFeedCallbacks ?s1) i = Some cbs \<and> cb \<in> set cbs"
    by (simp add: subscribe_registry_map_of [OF st] set_Set_add)
  then have same: "priceFeedCallbacks ?s2 = priceFeedCallbacks ?s1"
    by (simp add: subscribe_running [OF w1] subscribe_loop_registered)
  have get1: "Map_get (priceFeedCallbacks ?s1) (feed_id f) = Some (Set_add ?old cb)"
    using mem by (simp add: subscribe_registry_map_of [OF st])
  then have get2: "Map_get (priceFeedCallbacks ?s2) (feed_id f) = Some (Set_add ?old cb)"
    by (simp add: same)
  have "reachable ?s2" using reach by (intro reachable.subscribed)
  then have d: "distinct (Set_add ?old cb)"
    using get2 reachable_invariant [of ?s2] by (simp add: session_invariant_def)
  have member: "cb \<in> set (Set_add ?old cb)" by (simp add: set_Set_add)
  have once: "count_list (subscribers (priceFeedCallbacks ?s2) (feed_id f)) cb = 1"
    using d member by (simp add: subscribers_def get2 count_list_once)
  have others': "\<forall>c \<in> set (Set_add ?old cb). c \<noteq> cb \<longrightarrow> run c f = ([], None)"
    using others by (simp add: set_Set_add)
  have enough: "length (Set_add ?old cb) \<le> fuel"
    using fuel length_Set_add [of ?old cb] by simp
  from called_once [where cbs = "Set_add ?old cb" and cb = cb and run = run and f = f
      and fuel = fuel and i = "feed_id f" and attached = True and s = ?s2,
      OF d member others' own enough]
  have "fst (onMessage fuel run ?s2 (PriceUpdate (Inr f))) \<noteq> None \<and>
      (\<exists>called.
         invoked (events (snd (onMessage fuel run ?s2 (PriceUpdate (Inr f))))) =
           invoked (events ?s2) @ called \<and>
         count_list called cb = 1)"
    unfolding onMessage_update [OF get2] .
  with same once show ?thesis unfolding Let_def by blast
qed

theorem duplicate_registration_is_idempotent_witness:
  "reachable two_subscribers \<and> startable two_subscribers \<and>
   feed_id (PriceFeed ''ab12'' 7) \<in> set (map removeLeading0xIfExists [''0xab12'']) \<and>
   subscribers (priceFeedCallbacks two_subscribers) (feed_id (PriceFeed ''ab12'' 7)) = [1, 2] \<and>
   raises_on 3 1 (PriceFeed ''ab12'' 7) = ([], None) \<and>
   raises_on 3 2 (PriceFeed ''ab12'' 7) = ([], None) \<and>
   raises_on 3 3 (PriceFeed ''ab12'' 7) = ([], Some (Error ''fault'')) \<and>
   subscribers (priceFeedCallbacks
      (snd (subscribePriceFeedUpdates
         (snd (subscribePriceFeedUpdates two_subscribers [''0xab12''] 3)) [''0xab12''] 3)))
      ''ab12'' = [1, 2, 3] \<and>
   count_list (subscribers (priceFeedCallbacks
      (snd (subscribePriceFeedUpdates
         (snd (subscribePriceFeedUpdates two_subscribers [''0xab12''] 3)) [''0xab12''] 3)))
      (feed_id (PriceFeed ''ab12'' 7))) 3 = 1 \<and>
   fst (onMessage 3 (raises_on 3)
      (snd (subscribePriceFeedUpdates
         (snd (subscribePriceFeedUpdates two_subscribers [''0xab12''] 3)) [''0xab12''] 3))
      (PriceUpdate (Inr (PriceFeed ''ab12'' 7)))) \<noteq> None \<and>
   invoked (events (snd (onMessage 3 (raises_on 3)
      (snd (subscribePriceFeedUpdates
         (snd (subscribePriceFeedUpdates two_subscribers [''0xab12''] 3)) [''0xab12''] 3))
      (PriceUpdate (Inr (PriceFeed ''ab12'' 7)))))) = [1, 2, 3]"
proof -
  let ?f = "PriceFeed ''ab12'' 7"
  have st: "startable two_subscribers" by (simp add: startable_def two_subscribers_eq)
  have mem: "feed_id ?f \<in> set (map removeLeading0xIfExists [''0xab12''])"
    by (simp add: run_defs)
  have old: "subscribers (priceFeedCallbacks two_subscribers) (feed_id ?f) = [1, 2]"
    by (simp add: two_subscribers_eq subscribers_def)
  have run: "raises_on 3 1 ?f = ([], None)" "raises_on 3 2 ?f = ([], None)"
    "raises_on 3 3 ?f = ([], Some (Error ''fault''))"
    by (simp_all add: raises_on_def)
  have others: "\<forall>c \<in> set (subscribers (priceFeedCallbacks two_subscribers) (feed_id ?f)).
      c \<noteq> 3 \<longrightarrow> raises_on 3 c ?f = ([], None)"
    unfolding old using run by simp
  have own: "fst (raises_on 3 3 ?f) = []" by (simp add: run)
  have fuel: "length (subscribers (priceFeedCallbacks two_subscribers) (feed_id ?f)) < 3"
    unfolding old by simp
  note inst = duplicate_registration_is_idempotent
    [where s = two_subscribers and f = "?f" and priceIds = "[''0xab12'']"
       and cb = 3 and run = "raises_on 3" and fuel = 3,
     OF two_subscribers_reachable st mem others own fuel, unfolded Let_def]
  have a: "count_list (subscribers (priceFeedCallbacks
      (snd (subscribePriceFeedUpdates
         (snd (subscribePriceFeedUpdates two_subscribers [''0xab12''] 3)) [''0xab12''] 3)))
      (feed_id ?f)) 3 = 1"
    using inst by (rule conjunct2 [THEN conjunct1])
  have b: "subscribers (priceFeedCallbacks
      (snd (subscribePriceFeedUpdates
         (snd (subscribePriceFeedUpdates two_subscribers [''0xab12''] 3)) [''0xab12''] 3)))
      ''ab12'' = [1, 2, 3]"
    by (simp add: two_subscribers_eq subscribers_def run_defs loop_simps)
  have c: "fst (onMessage 3 (raises_on 3)
      (snd (subscribePriceFeedUpdates
         (snd (subscribePriceFeedUpdates two_subscribers [''0xab12''] 3)) [''0xab12''] 3))
      (PriceUpdate (Inr ?f))) \<noteq> None"
    using inst by (rule conjunct2 [THEN conjunct2, THEN conjunct1])
  have d: "invoked (events (snd (onMessage 3 (raises_on 3)
      (snd (subscribePriceFeedUpdates
         (snd (subscribePriceFeedUpdates two_subscribers [''0xab12''] 3)) [''0xab12''] 3))
      (PriceUpdate (Inr ?f))))) = [1, 2, 3]"
    by (simp add: two_subscribers_eq run_defs loop_simps raises_on_def eval_nat_numeral)
  show ?thesis using two_subscribers_reachable st mem old run a b c d by blast
qed

text \<open>
  Claim C8 as stated fails: with the callbacks 1, 2, 3 registered for one topic, 3
  subscribed a second time and 1 raising, the frame for that topic ends at callback 1 and
  callback 3 is not invoked.
\<close>

theorem duplicate_registration_counterexample:
  "subscribers (priceFeedCallbacks (snd (subscribePriceFeedUpdates three_subscribers [''ab12''] 3)))
     ''ab12'' = [1, 2, 3] \<and>
   snd (raises_on 1 1 (PriceFeed ''ab12'' 7)) = Some (Error ''fault'') \<and>
   fst (onMessage 3 (raises_on 1)
      (snd (subscribePriceFeedUpdates three_subscribers [''ab12''] 3))
      (PriceUpdate (Inr (PriceFeed ''ab12'' 7)))) = Some (Threw (Error ''fault'')) \<and>
   count_list (events (snd (onMessage 3 (raises_on 1)
      (snd (subscribePriceFeedUpdates three_subscribers [''ab12''] 3))
      (PriceUpdate (Inr (PriceFeed ''ab12'' 7)))))) (Invoke 3 (PriceFeed ''ab12'' 7)) = 0"
  by (simp add: three_subscribers_eq subscribers_def run_defs loop_simps raises_on_def
      eval_nat_numeral)

subsection \<open>Spellings of a topic id\<close>

lemma toLowerCase_0x: "map toLowerCase (''0x'' @ x) = ''0x'' @ map toLowerCase x"
  by (simp add: toLowerCase_def)

lemma unsubscribe_all_map_of:
  assumes "wsClient s = Some w"
  shows "Map_get (priceFeedCallbacks (snd (unsubscribePriceFeedUpdates s priceIds None))) k =
     (if k \<in> set (map removeLeading0xIfExists priceIds) then None
      else Map_get (priceFeedCallbacks s) k)"
  by (simp add: unsubscribe_registry_map_of [OF assms] unsubscribe_loop_map_of remaining_def
      split: option.split)

text \<open>
  Claim C9, as amended. Subscribe and unsubscribe pass every id through
  \<open>removeLeading0xIfExists\<close> before they touch the registry: a subscribe call sets
  exactly the keys that are normal forms of its ids, and an unsubscribe call without a
  callback removes exactly the keys that are normal forms of its ids and leaves every
  other key with its subscriber set. So subscribing with one spelling and unsubscribing
  with another spelling of the same normal form acts on one key, which is gone
  afterwards. Two spellings that differ only in letter case have the same normal form,
  and so have an id and the same id behind a leading \<^verbatim>\<open>0x\<close>. The message handler does
  not normalize: it looks the id of the feed up as it was parsed, and a frame whose id is
  not itself a key reaches no callback.
\<close>

theorem spellings_share_registry_key:
  assumes st: "startable s"
    and same: "removeLeading0xIfExists a = removeLeading0xIfExists b"
    and a: "a \<in> set subs" and b: "b \<in> set unsubs"
  shows
    "(\<forall>k. Map_get (priceFeedCallbacks (snd (subscribePriceFeedUpdates s subs cb))) k =
          (if k \<in> set (map removeLeading0xIfExists subs)
           then Some (Set_add (subscribers (priceFeedCallbacks s) k) cb)
           else Map_get (priceFeedCallbacks s) k)) \<and>
     (\<forall>k. Map_get (priceFeedCallbacks
             (snd (unsubscribePriceFeedUpdates (snd (subscribePriceFeedUpdates s subs cb))
                     unsubs None))) k =
          (if k \<in> set (map removeLeading0xIfExists unsubs) then None
           else Map_get (priceFeedCallbacks (snd (subscribePriceFeedUpdates s subs cb))) k)) \<and>
     Map_has (priceFeedCallbacks (snd (subscribePriceFeedUpdates s subs cb)))
       (removeLeading0xIfExists a) \<and>
     \<not> Map_has (priceFeedCallbacks
          (snd (unsubscribePriceFeedUpdates (snd (subscribePriceFeedUpdates s subs cb)) unsubs None)))
        (removeLeading0xIfExists a) \<and>
     (map toLowerCase x = map toLowerCase y \<longrightarrow>
        removeLeading0xIfExists x = removeLeading0xIfExists y) \<and>
     (take 2 (map toLowerCase x) \<noteq> ''0x'' \<longrightarrow>
        removeLeading0xIfExists (''0x'' @ x) = removeLeading0xIfExists x) \<and>
     (\<not> Map_has (priceFeedCallbacks s') (feed_id f) \<longrightarrow>
        onMessage fuel run s' (PriceUpdate (Inr f)) = (Some Returned, s'))"
proof (intro conjI impI allI)
  let ?s1 = "snd (subscribePriceFeedUpdates s subs cb)"
  obtain w where w1: "wsClient ?s1 = Some w"
    using subscribe_startable [OF st] by blast
  fix k
  show "Map_get (priceFeedCallbacks ?s1) k =
      (if k \<in> set (map removeLeading0xIfExists subs)
       then Some (Set_add (subscribers (priceFeedCallbacks s) k) cb)
       else Map_get (priceFeedCallbacks s) k)"
    using st by (rule subscribe_registry_map_of)
  show "Map_get (priceFeedCallbacks (snd (unsubscribePriceFeedUpdates ?s1 unsubs None))) k =
      (if k \<in> set (map removeLeading0xIfExists unsubs) then None
       else Map_get (priceFeedCallbacks ?s1) k)"
    using w1 by (rule unsubscribe_all_map_of)
next
  let ?s1 = "snd (subscribePriceFeedUpdates s subs cb)"
  obtain w where w1: "wsClient ?s1 = Some w"
    using subscribe_startable [OF st] by blast
  show "Map_has (priceFeedCallbacks ?s1) (removeLeading0xIfExists a)"
    using a by (simp add: subscribe_registry_map_of [OF st])
  have "removeLeading0xIfExists a \<in> set (map removeLeading0xIfExists unsubs)"
    using b same by auto
  then show "\<not> Map_has (priceFeedCallbacks (snd (unsubscribePriceFeedUpdates ?s1 unsubs None)))
      (removeLeading0xIfExists a)"
    by (simp add: unsubscribe_all_map_of [OF w1])
next
  assume "map toLowerCase x = map toLowerCase y"
  then show "removeLeading0xIfExists x = removeLeading0xIfExists y"
    by (simp add: removeLeading0xIfExists_def)
next
  assume "take 2 (map toLowerCase x) \<noteq> ''0x''"
  then show "removeLeading0xIfExists (''0x'' @ x) = removeLeading0xIfExists x"
    unfolding removeLeading0xIfExists_def toLowerCase_0x by (simp add: Let_def)
next
  assume "\<not> Map_has (priceFeedCallbacks s') (feed_id f)"
  then show "onMessage fuel run s' (PriceUpdate (Inr f)) = (Some Returned, s')"
    by (simp add: onMessage_def)
qed

theorem spellings_share_registry_key_witness:
  "startable fresh_session \<and>
   removeLeading0xIfExists ''ab12'' = removeLeading0xIfExists ''0xab12'' \<and>
   ''ab12'' \<in> set [''ab12'', ''0xcd34''] \<and> ''0xab12'' \<in> set [''0xab12''] \<and>
   priceFeedCallbacks (snd (subscribePriceFeedUpdates fresh_session [''ab12'', ''0xcd34''] 1)) =
     [(''ab12'', [1]), (''cd34'', [1])] \<and>
   Map_get (priceFeedCallbacks
      (snd (unsubscribePriceFeedUpdates
         (snd (subscribePriceFeedUpdates fresh_session [''ab12'', ''0xcd34''] 1))
         [''0xab12''] None))) ''ab12'' = None \<and>
   Map_get (priceFeedCallbacks
      (snd (unsubscribePriceFeedUpdates
         (snd (subscribePriceFeedUpdates fresh_session [''ab12'', ''0xcd34''] 1))
         [''0xab12''] None))) ''cd34'' = Some [1] \<and>
   map toLowerCase ''AB12'' = map toLowerCase ''ab12'' \<and>
   removeLeading0xIfExists ''AB12'' = removeLeading0xIfExists ''ab12'' \<and>
   take 2 (map toLowerCase ''ab12'') \<noteq> ''0x'' \<and>
   removeLeading0xIfExists (''0x'' @ ''ab12'') = removeLeading0xIfExists ''ab12'' \<and>
   \<not> Map_has (priceFeedCallbacks two_topics) (feed_id (PriceFeed ''0xab12'' 7)) \<and>
   onMessage 3 (raises_on 0) two_topics (PriceUpdate (Inr (PriceFeed ''0xab12'' 7))) =
     (Some Returned, two_topics)"
proof -
  let ?s1 = "snd (subscribePriceFeedUpdates fresh_session [''ab12'', ''0xcd34''] 1)"
  have st: "startable fresh_session"
    by (simp add: startable_def fresh_session_def new_connection_def)
  have same: "removeLeading0xIfExists ''ab12'' = removeLeading0xIfExists ''0xab12''"
    by (simp add: run_defs)
  have norm: "removeLeading0xIfExists ''ab12'' = ''ab12''"
    "removeLeading0xIfExists ''0xab12'' = ''ab12''"
    "removeLeading0xIfExists ''0xcd34'' = ''cd34''"
    by (simp_all add: run_defs)
  have mem: "''ab12'' \<in> set [''ab12'', ''0xcd34'']" "''0xab12'' \<in> set [''0xab12'']"
    by simp_all
  have lower: "map toLowerCase ''AB12'' = map toLowerCase ''ab12''"
    by (simp add: toLowerCase_def)
  have no_prefix: "take 2 (map toLowerCase ''ab12'') \<noteq> ''0x''"
    by (simp add: toLowerCase_def)
  have absent: "\<not> Map_has (priceFeedCallbacks two_topics) (feed_id (PriceFeed ''0xab12'' 7))"
    by (simp add: two_topics_eq)
  note inst = spellings_share_registry_key
    [where s = fresh_session and a = "''ab12''" and b = "''0xab12''" and cb = 1
       and subs = "[''ab12'', ''0xcd34'']" and unsubs = "[''0xab12'']"
       and x = "''AB12''" and y = "''ab12''" and s' = two_topics
       and f = "PriceFeed ''0xab12'' 7" and fuel = 3 and run = "raises_on 0",
     OF st same mem]
  note inst' = spellings_share_registry_key
    [where s = fresh_session and a = "''ab12''" and b = "''0xab12''" and cb = 1
       and subs = "[''ab12'', ''0xcd34'']" and unsubs = "[''0xab12'']"
       and x = "''ab12''" and y = "''ab12''" and s' = two_topics
       and f = "PriceFeed ''0xab12'' 7" and fuel = 3 and run = "raises_on 0",
     OF st same mem]
  have reg1: "priceFeedCallbacks ?s1 = [(''ab12'', [1]), (''cd34'', [1])]"
    by (simp add: run_defs loop_simps)
  have gone: "Map_get (priceFeedCallbacks
      (snd (unsubscribePriceFeedUpdates ?s1 [''0xab12''] None))) ''ab12'' = None"
    using inst [THEN conjunct2, THEN conjunct1, rule_format, of "''ab12''"]
    by (simp add: norm)
  have kept_eq: "Map_get (priceFeedCallbacks
      (snd (unsubscribePriceFeedUpdates ?s1 [''0xab12''] None))) ''cd34'' =
      Map_get (priceFeedCallbacks ?s1) ''cd34''"
    using inst [THEN conjunct2, THEN conjunct1, rule_format, of "''cd34''"]
    by (simp add: norm)
  have kept: "Map_get (priceFeedCallbacks
      (snd (unsubscribePriceFeedUpdates ?s1 [''0xab12''] None))) ''cd34'' = Some [1]"
    unfolding kept_eq reg1 by simp
  have cases: "removeLeading0xIfExists ''AB12'' = removeLeading0xIfExists ''ab12''"
    using inst lower by blast
  have prefix: "removeLeading0xIfExists (''0x'' @ ''ab12'') = removeLeading0xIfExists ''ab12''"
    using inst' no_prefix by blast
  have dispatch: "onMessage 3 (raises_on 0) two_topics (PriceUpdate (Inr (PriceFeed ''0xab12'' 7))) =
      (Some Returned, two_topics)"
    using inst absent by blast
  show ?thesis
    using st same mem reg1 gone kept lower cases no_prefix prefix absent dispatch by blast
qed

text \<open>
  Claim C9 as stated fails at the message handler, which is a registry access too: after
  subscribing to \<^verbatim>\<open>0xab12\<close> the key is \<^verbatim>\<open>ab12\<close>, and a frame for the feed id \<^verbatim>\<open>0xab12\<close>,
  another spelling of that key, reaches no callback, while a frame for \<^verbatim>\<open>ab12\<close> does.
\<close>

theorem unnormalized_lookup_counterexample:
  "removeLeading0xIfExists ''0xab12'' = ''ab12'' \<and>
   priceFeedCallbacks (snd (subscribePriceFeedUpdates fresh_session [''0xab12''] 1)) =
     [(''ab12'', [1])] \<and>
   onMessage 3 (raises_on 0) (snd (subscribePriceFeedUpdates fresh_session [''0xab12''] 1))
       (PriceUpdate (Inr (PriceFeed ''0xab12'' 7))) =
     (Some Returned, snd (subscribePriceFeedUpdates fresh_session [''0xab12''] 1)) \<and>
   invoked (events (snd (onMessage 3 (raises_on 0)
       (snd (subscribePriceFeedUpdates fresh_session [''0xab12''] 1))
       (PriceUpdate (Inr (PriceFeed ''ab12'' 7)))))) = [1]"
  by (simp add: run_defs loop_simps raises_on_def eval_nat_numeral)

end
